theory Spec2Isabelle
  imports Main
begin

section \<open>Data model\<close>

text \<open>
  \<^verbatim>\<open>type Player = 'X' | 'O' | null\<close> (App.tsx): a symbol, or \<open>null\<close> for an empty cell.
  The two symbols \<^verbatim>\<open>'X'\<close> and \<^verbatim>\<open>'O'\<close> are \<open>PX\<close> and \<open>PO\<close>, and \<open>null\<close> is \<open>None\<close>.
\<close>

datatype player = PX | PO

type_synonym Player = "player option"

type_synonym socket_id = string

type_synonym room_code = string

text \<open>
  A room of the registry, as \<^verbatim>\<open>join_room\<close> creates it (server.ts):
  \<^verbatim>\<open>{ players: [socket.id], board: Array(9).fill(null), turn: 'X' }\<close>.
\<close>

record room =
  players :: "socket_id list"
  board :: "Player list"
  turn :: Player

text \<open>The messages the server emits, with their payloads.\<close>

datatype server_event =
    player_assignment player
  | game_ready "Player list" Player
  | move_made "Player list" Player
  | game_reset "Player list" Player
  | error string

text \<open>
  \<^verbatim>\<open>socket.emit(...)\<close> addresses one connection, \<^verbatim>\<open>io.to(roomCode).emit(...)\<close>
  addresses the broadcast group of a room code.
\<close>

datatype emit = To_socket socket_id server_event | To_room room_code server_event

text \<open>
  The server state: the registry \<^verbatim>\<open>rooms\<close> (a Map from room code to room) and the
  membership of the transport's broadcast groups, which \<^verbatim>\<open>socket.join(roomCode)\<close>
  extends.
\<close>

record server =
  rooms :: "room_code \<rightharpoonup> room"
  members :: "room_code \<Rightarrow> socket_id set"

text \<open>
  Reading \<^verbatim>\<open>xs[i]\<close> in JavaScript: the element when \<open>i\<close> is an index of the array,
  \<open>undefined\<close> (here \<open>None\<close>) otherwise. So \<open>Some None\<close> is a cell holding \<open>null\<close>.
\<close>

definition cell_at :: "'a list \<Rightarrow> int \<Rightarrow> 'a option" where
  "cell_at xs i = (if 0 \<le> i \<and> i < int (length xs) then Some (xs ! nat i) else None)"

section \<open>The relay protocol handlers (server.ts)\<close>

definition join_room :: "server \<Rightarrow> socket_id \<Rightarrow> room_code \<Rightarrow> server \<times> emit list" where
  "join_room st sock roomCode =
     (let st1 = st\<lparr>members := (members st)(roomCode := insert sock (members st roomCode))\<rparr>
      in case rooms st1 roomCode of
           None \<Rightarrow>
             (st1\<lparr>rooms := (rooms st1)(roomCode \<mapsto>
                     \<lparr>players = [sock], board = replicate 9 None, turn = Some PX\<rparr>)\<rparr>,
              [To_socket sock (player_assignment PX)])
         | Some room \<Rightarrow>
             if length (players room) < 2 then
               (let room' = room\<lparr>players := players room @ [sock]\<rparr>
                in (st1\<lparr>rooms := (rooms st1)(roomCode \<mapsto> room')\<rparr>,
                    [To_socket sock (player_assignment PO),
                     To_room roomCode (game_ready (board room') (turn room'))]))
             else (st1, [To_socket sock (error ''Room is full'')]))"

text \<open>
  The write \<^verbatim>\<open>room.board[index] = symbol\<close> runs only after the read
  \<^verbatim>\<open>room.board[index] === null\<close> succeeded, so \<open>index\<close> is an index of the array there
  and the write is a list update.
\<close>

definition make_move ::
  "server \<Rightarrow> socket_id \<Rightarrow> room_code \<Rightarrow> int \<Rightarrow> Player \<Rightarrow> server \<times> emit list" where
  "make_move st sock roomCode index symbol =
     (case rooms st roomCode of
        None \<Rightarrow> (st, [])
      | Some room \<Rightarrow>
          if cell_at (board room) index = Some None \<and> turn room = symbol then
            (let room' = room\<lparr>board := (board room)[nat index := symbol],
                               turn := (if symbol = Some PX then Some PO else Some PX)\<rparr>
             in (st\<lparr>rooms := (rooms st)(roomCode \<mapsto> room')\<rparr>,
                 [To_room roomCode (move_made (board room') (turn room'))]))
          else (st, []))"

definition reset_game :: "server \<Rightarrow> socket_id \<Rightarrow> room_code \<Rightarrow> server \<times> emit list" where
  "reset_game st sock roomCode =
     (case rooms st roomCode of
        None \<Rightarrow> (st, [])
      | Some room \<Rightarrow>
          (let room' = room\<lparr>board := replicate 9 None, turn := Some PX\<rparr>
           in (st\<lparr>rooms := (rooms st)(roomCode \<mapsto> room')\<rparr>,
               [To_room roomCode (game_reset (board room') (turn room'))])))"

text \<open>
  The \<^verbatim>\<open>disconnect\<close> handler only logs: the registry is left as it is. The transport
  itself takes a closed connection out of every broadcast group.
\<close>

definition disconnect :: "server \<Rightarrow> socket_id \<Rightarrow> server \<times> emit list" where
  "disconnect st sock = (st\<lparr>members := (\<lambda>rc. members st rc - {sock})\<rparr>, [])"

text \<open>The messages a connection can send, and the dispatch to the handlers.\<close>

datatype client_msg =
    Join_room room_code
  | Make_move room_code int Player
  | Reset_game room_code
  | Disconnect

fun handle :: "server \<Rightarrow> socket_id \<times> client_msg \<Rightarrow> server \<times> emit list" where
  "handle st (sock, Join_room rc) = join_room st sock rc"
| "handle st (sock, Make_move rc i symbol) = make_move st sock rc i symbol"
| "handle st (sock, Reset_game rc) = reset_game st sock rc"
| "handle st (sock, Disconnect) = disconnect st sock"

text \<open>
  The connections an emitted message is delivered to: the addressed connection, or the
  members of the addressed group when the message is emitted.
\<close>

fun recipients :: "server \<Rightarrow> emit \<Rightarrow> socket_id set" where
  "recipients st (To_socket sock ev) = {sock}"
| "recipients st (To_room rc ev) = members st rc"

text \<open>
  The event loop: messages are handled one at a time, each to completion. The log holds
  every emitted message with the connections it was delivered to.
\<close>

fun run :: "server \<Rightarrow> (socket_id \<times> client_msg) list \<Rightarrow> server \<times> (emit \<times> socket_id set) list" where
  "run st [] = (st, [])"
| "run st (m # ms) =
     (let (st1, out) = handle st m;
          (st2, log) = run st1 ms
      in (st2, map (\<lambda>e. (e, recipients st1 e)) out @ log))"

text \<open>The server starts with an empty registry; every later state comes from a handler.\<close>

inductive reachable :: "server \<Rightarrow> bool" where
  start: "rooms st = Map.empty \<Longrightarrow> reachable st"
| step: "reachable st \<Longrightarrow> reachable (fst (handle st m))"

definition init :: server where
  "init = \<lparr>rooms = Map.empty, members = (\<lambda>rc. {})\<rparr>"

section \<open>Invariant of the registry and sample states\<close>

text \<open>What every room of a reachable registry satisfies: nine cells, and a turn marker
  that is a symbol.\<close>

definition room_ok :: "room \<Rightarrow> bool" where
  "room_ok r \<longleftrightarrow> length (board r) = 9 \<and> (turn r = Some PX \<or> turn r = Some PO)"

definition rooms_ok :: "server \<Rightarrow> bool" where
  "rooms_ok st \<longleftrightarrow> (\<forall>rc r. rooms st rc = Some r \<longrightarrow> room_ok r)"

text \<open>Sample runs: one, two and three joins to room \<open>A\<close>, and a move by the first
  joiner before anyone else has joined.\<close>

definition st_one :: server where
  "st_one = fst (join_room init ''s1'' ''A'')"

definition st_two :: server where
  "st_two = fst (join_room st_one ''s2'' ''A'')"

definition st_three :: server where
  "st_three = fst (join_room st_two ''s3'' ''A'')"

definition st_moved :: server where
  "st_moved = fst (make_move st_one ''s1'' ''A'' 0 (Some PX))"

section \<open>The board engine (App.tsx)\<close>

definition WINNING_COMBINATIONS :: "nat list list" where
  "WINNING_COMBINATIONS =
     [[0, 1, 2], [3, 4, 5], [6, 7, 8],
      [0, 3, 6], [1, 4, 7], [2, 5, 8],
      [0, 4, 8], [2, 4, 6]]"

text \<open>
  The result of \<^verbatim>\<open>checkWinner\<close>: \<^verbatim>\<open>{ winner, line }\<close> with \<^verbatim>\<open>winner\<close> a symbol or
  \<^verbatim>\<open>'Draw'\<close>, or \<open>null\<close> (here \<open>None\<close>) while the game goes on.
\<close>

datatype outcome = Won player | Draw

record check_result =
  winner :: outcome
  line :: "nat list option"

text \<open>
  The loop over the combinations; \<^verbatim>\<open>const [a, b, c] = combo\<close> takes the first three
  indices of a combination (with fewer, an index is \<open>undefined\<close> and the test fails). The test
  \<^verbatim>\<open>squares[a] && squares[a] === squares[b] && squares[a] === squares[c]\<close>
  holds when the first cell is a symbol (neither \<open>null\<close> nor \<open>undefined\<close>) and the two
  others hold the same symbol.
\<close>

fun first_line :: "Player list \<Rightarrow> nat list list \<Rightarrow> check_result option" where
  "first_line squares [] = None"
| "first_line squares (combo # rest) =
     (case combo of
        a # b # c # _ \<Rightarrow>
          (case cell_at squares (int a) of
             Some (Some p) \<Rightarrow>
               if cell_at squares (int a) = cell_at squares (int b) \<and>
                  cell_at squares (int a) = cell_at squares (int c)
               then Some \<lparr>winner = Won p, line = Some combo\<rparr>
               else first_line squares rest
           | _ \<Rightarrow> first_line squares rest)
      | _ \<Rightarrow> first_line squares rest)"

definition checkWinner :: "Player list \<Rightarrow> check_result option" where
  "checkWinner squares =
     (case first_line squares WINNING_COMBINATIONS of
        Some r \<Rightarrow> Some r
      | None \<Rightarrow>
          if list_all (\<lambda>s. s \<noteq> None) squares then Some \<lparr>winner = Draw, line = None\<rparr>
          else None)"

text \<open>
  The scores of \<^verbatim>\<open>minimax\<close> are JavaScript numbers: integers, and the two infinities the
  running best score starts from.
\<close>

datatype score = NegInf | Fin int | PosInf

fun score_less :: "score \<Rightarrow> score \<Rightarrow> bool" where
  "score_less (Fin a) (Fin b) = (a < b)"
| "score_less NegInf NegInf = False"
| "score_less NegInf _ = True"
| "score_less _ NegInf = False"
| "score_less PosInf _ = False"
| "score_less _ PosInf = True"

definition score_max :: "score \<Rightarrow> score \<Rightarrow> score" where
  "score_max a b = (if score_less a b then b else a)"

definition score_min :: "score \<Rightarrow> score \<Rightarrow> score" where
  "score_min a b = (if score_less b a then b else a)"

text \<open>The number of cells holding \<open>null\<close>; it bounds the depth of the search.\<close>

definition empties :: "Player list \<Rightarrow> nat" where
  "empties squares = length (filter (\<lambda>s. s = None) squares)"

text \<open>
  \<^verbatim>\<open>result?.winner === s\<close> for a symbol or \<open>null\<close> \<open>s\<close>: the result names a winner and
  that winner is \<open>s\<close>. It is false when \<open>s\<close> is \<open>null\<close>.
\<close>

definition winner_is :: "check_result option \<Rightarrow> Player \<Rightarrow> bool" where
  "winner_is result s =
     (case result of
        Some r \<Rightarrow> (case winner r of Won p \<Rightarrow> s = Some p | Draw \<Rightarrow> False)
      | None \<Rightarrow> False)"

definition is_draw :: "check_result option \<Rightarrow> bool" where
  "is_draw result = (case result of Some r \<Rightarrow> winner r = Draw | None \<Rightarrow> False)"

text \<open>
  \<^verbatim>\<open>minimax\<close> tries every cell \<open>i < 9\<close> with \<^verbatim>\<open>!squares[i]\<close>: it writes the symbol,
  recurses, and writes \<open>null\<close> back. On a board of nine cells, which is what every caller
  passes, the cell held \<open>null\<close> before, so the array is as it was after each iteration, and
  the model passes an updated copy to the recursive call instead. (On a shorter array the
  source's writes would extend it; the model does not enter the loop body for an index
  outside the array.)
\<close>

function minimax :: "Player list \<Rightarrow> int \<Rightarrow> bool \<Rightarrow> Player \<Rightarrow> score" where
  "minimax squares depth isMaximizing aiSymbol =
     (let result = checkWinner squares;
          opponentSymbol = (if aiSymbol = Some PX then PO else PX)
      in if winner_is result aiSymbol then Fin (10 - depth)
         else if winner_is result (Some opponentSymbol) then Fin (depth - 10)
         else if is_draw result then Fin 0
         else if isMaximizing then
           fold (\<lambda>i bestScore.
                   if cell_at squares (int i) = Some None then
                     score_max (minimax (squares[i := aiSymbol]) (depth + 1) False aiSymbol)
                       bestScore
                   else bestScore)
             [0..<9] NegInf
         else
           fold (\<lambda>i bestScore.
                   if cell_at squares (int i) = Some None then
                     score_min (minimax (squares[i := Some opponentSymbol]) (depth + 1) True aiSymbol)
                       bestScore
                   else bestScore)
             [0..<9] PosInf)"
  by pat_completeness auto

termination minimax
proof -
  have less: "empties (xs[i := Some p]) < empties xs"
    if "i < length xs" "xs ! i = None" for xs :: "Player list" and i p
    using that
  proof (induction xs arbitrary: i)
    case Nil
    then show ?case by simp
  next
    case (Cons x xs)
    show ?case
    proof (cases i)
      case 0
      with Cons.prems show ?thesis by (simp add: empties_def)
    next
      case (Suc j)
      with Cons.prems have "j < length xs" "xs ! j = None" by simp_all
      from Cons.IH [OF this] Suc show ?thesis by (simp add: empties_def)
    qed
  qed
  show ?thesis
  proof (relation "measure (\<lambda>(squares, depth, isMaximizing, aiSymbol).
                     2 * empties squares + (if isMaximizing then 1 else 0))", goal_cases)
    case 1
    show ?case by simp
  next
    case (2 squares depth isMaximizing aiSymbol result opponentSymbol i bestScore)
    then have c: "cell_at squares (int i) = Some None" and m: isMaximizing by simp_all
    from c have i: "i < length squares" "squares ! i = None"
      by (simp_all add: cell_at_def split: if_splits)
    show ?case
    proof (cases aiSymbol)
      case None
      from i have "squares[i := None] = squares" by (simp add: list_update_same_conv)
      with None m show ?thesis by simp
    next
      case (Some p)
      with less [OF i, of p] m show ?thesis by simp
    qed
  next
    case (3 squares depth isMaximizing aiSymbol result opponentSymbol i bestScore)
    then have c: "cell_at squares (int i) = Some None" and m: "\<not> isMaximizing" by simp_all
    from c have i: "i < length squares" "squares ! i = None"
      by (simp_all add: cell_at_def split: if_splits)
    from less [OF i, of opponentSymbol] m show ?case by simp
  qed
qed

text \<open>
  \<^verbatim>\<open>getBestMove\<close>: the running pair is \<open>(bestScore, move)\<close>, starting from
  \<open>(-Infinity, -1)\<close>.
\<close>

definition getBestMove :: "Player list \<Rightarrow> Player \<Rightarrow> int" where
  "getBestMove squares aiSymbol =
     snd (fold (\<lambda>i (bestScore, move).
                  if cell_at squares (int i) = Some None then
                    (let score = minimax (squares[i := aiSymbol]) 0 False aiSymbol
                     in if score_less bestScore score then (score, int i) else (bestScore, move))
                  else (bestScore, move))
            [0..<9] (NegInf, - 1))"

text \<open>A board for the winning-line example: X on 0, 1, 2 and O on 3, 4.\<close>

definition board_x_row :: "Player list" where
  "board_x_row = [Some PX, Some PX, Some PX, Some PO, Some PO, None, None, None, None]"

declare minimax.simps [simp del]

text \<open>The combinations of a list are triples of indices of the board.\<close>

definition triples_in :: "Player list \<Rightarrow> nat list list \<Rightarrow> bool" where
  "triples_in squares cs \<longleftrightarrow>
     (\<forall>combo \<in> set cs. \<exists>a b c. combo = [a, b, c] \<and> a < length squares \<and> b < length squares \<and> c < length squares)"

section \<open>Notions for reasoning about the search\<close>

text \<open>The other symbol: \<^verbatim>\<open>aiSymbol === 'X' ? 'O' : 'X'\<close> for a symbol \<open>aiSymbol\<close>.\<close>

fun opponent :: "player \<Rightarrow> player" where
  "opponent PX = PO"
| "opponent PO = PX"

text \<open>The cells the loops of \<^verbatim>\<open>minimax\<close> and \<^verbatim>\<open>getBestMove\<close> try, in their order.\<close>

definition moves :: "Player list \<Rightarrow> nat list" where
  "moves squares = filter (\<lambda>i. cell_at squares (int i) = Some None) [0..<9]"

text \<open>The number a finite score stands for.\<close>

fun val :: "score \<Rightarrow> int" where
  "val (Fin v) = v"
| "val NegInf = 0"
| "val PosInf = 0"

definition mmv :: "Player list \<Rightarrow> int \<Rightarrow> bool \<Rightarrow> player \<Rightarrow> int" where
  "mmv squares depth isMaximizing a = val (minimax squares depth isMaximizing (Some a))"

text \<open>A board with a single empty cell, the last one, and no line.\<close>

definition board_last :: "Player list" where
  "board_last = [Some PX, Some PO, Some PX, Some PX, Some PO, Some PO, Some PO, Some PX, None]"

section \<open>A sign evaluator for the search\<close>

text \<open>
  Whether a score of \<^verbatim>\<open>minimax\<close> is positive, or non-negative, does not depend on the
  depth, and can be computed by a search that stops at the first move that settles a node.
  The evaluator below does that on the nine cells of a board; the lemmas relate it to
  \<^verbatim>\<open>minimax\<close>.
\<close>

fun line3 :: "Player \<Rightarrow> Player \<Rightarrow> Player \<Rightarrow> bool" where
  "line3 (Some p) c2 c3 = (if c2 = Some p then c3 = Some p else False)"
| "line3 None c2 c3 = False"

text \<open>The symbol of the first combination that is a line.\<close>

fun first_sym :: "Player list \<Rightarrow> nat list list \<Rightarrow> Player" where
  "first_sym sq [] = None"
| "first_sym sq (combo # rest) =
     (case combo of
        [a, b, c] \<Rightarrow> if line3 (sq ! a) (sq ! b) (sq ! c) then sq ! a else first_sym sq rest
      | _ \<Rightarrow> first_sym sq rest)"

definition fwinner :: "Player list \<Rightarrow> Player" where
  "fwinner sq = first_sym sq WINNING_COMBINATIONS"

fun rapp :: "'a list \<Rightarrow> 'a list \<Rightarrow> 'a list" where
  "rapp [] ys = ys"
| "rapp (x # xs) ys = rapp xs (x # ys)"

text \<open>
  Some, or every, empty cell of \<open>post\<close> gives a board that satisfies \<open>f\<close> when \<open>p\<close>
  is written there; \<open>pre\<close> holds the cells before \<open>post\<close>, last first.
\<close>

fun ex_move :: "(Player list \<Rightarrow> bool) \<Rightarrow> player \<Rightarrow> Player list \<Rightarrow> Player list \<Rightarrow> bool" where
  "ex_move f p pre [] = False"
| "ex_move f p pre (None # post) =
     (if f (rapp pre (Some p # post)) then True else ex_move f p (None # pre) post)"
| "ex_move f p pre (Some q # post) = ex_move f p (Some q # pre) post"

fun all_move :: "(Player list \<Rightarrow> bool) \<Rightarrow> player \<Rightarrow> Player list \<Rightarrow> Player list \<Rightarrow> bool" where
  "all_move f p pre [] = True"
| "all_move f p pre (None # post) =
     (if f (rapp pre (Some p # post)) then all_move f p (None # pre) post else False)"
| "all_move f p pre (Some q # post) = all_move f p (Some q # pre) post"

text \<open>
  \<open>sign_ok n strict a m b\<close>: on the board \<open>b\<close> with \<open>n\<close> empty cells, the score of
  \<^verbatim>\<open>minimax\<close> for the symbol \<open>a\<close> is positive (\<open>strict\<close>) or non-negative.
\<close>

primrec sign_ok :: "nat \<Rightarrow> bool \<Rightarrow> player \<Rightarrow> bool \<Rightarrow> Player list \<Rightarrow> bool" where
  "sign_ok 0 strict a m b = (case fwinner b of Some p \<Rightarrow> p = a | None \<Rightarrow> \<not> strict)"
| "sign_ok (Suc n) strict a m b =
     (case fwinner b of
        Some p \<Rightarrow> p = a
      | None \<Rightarrow> if m then ex_move (sign_ok n strict a False) a [] b
                else all_move (sign_ok n strict a True) (opponent a) [] b)"

text \<open>
  The first move of \<open>js\<close> with a non-negative score, provided no later move has a positive
  score: then it is the move \<^verbatim>\<open>getBestMove\<close> returns.
\<close>

fun first_safe :: "nat \<Rightarrow> player \<Rightarrow> Player list \<Rightarrow> nat list \<Rightarrow> nat option" where
  "first_safe n a b [] = None"
| "first_safe n a b (i # js) =
     (if sign_ok n False a False (b[i := Some a]) then
        (if list_all (\<lambda>j. \<not> sign_ok n True a False (b[j := Some a])) js then Some i else None)
      else first_safe n a b js)"

text \<open>The symbol a result of \<^verbatim>\<open>checkWinner\<close> names as winner, if any.\<close>

definition sym_of :: "check_result option \<Rightarrow> Player" where
  "sym_of result =
     (case result of
        Some r \<Rightarrow> (case winner r of Won p \<Rightarrow> Some p | Draw \<Rightarrow> None)
      | None \<Rightarrow> None)"

section \<open>The single-player game and self-play\<close>

text \<open>
  The single-player mode of \<^verbatim>\<open>App\<close>, with the AI playing \<open>a\<close>: the positions
  \<open>(board, symbol to move)\<close> that can come up. The game starts on the empty board with X to
  move. While \<^verbatim>\<open>checkWinner\<close> has reported nothing, the AI's turn writes its symbol to the
  cell \<^verbatim>\<open>getBestMove\<close> returns (the effect skips the move when that is \<open>-1\<close>), and the
  user's turn writes the other symbol to any empty cell (\<^verbatim>\<open>handleSquareClick\<close> ignores a
  click on an occupied cell, after the game is over, or on the AI's turn).
\<close>

inductive ai_game :: "player \<Rightarrow> Player list \<Rightarrow> player \<Rightarrow> bool" for a :: player where
  start: "ai_game a (replicate 9 None) PX"
| ai_move:
    "ai_game a b a \<Longrightarrow> checkWinner b = None \<Longrightarrow> getBestMove b (Some a) = int i \<Longrightarrow>
     ai_game a (b[i := Some a]) (opponent a)"
| user_move:
    "ai_game a b (opponent a) \<Longrightarrow> checkWinner b = None \<Longrightarrow> i < 9 \<Longrightarrow> b ! i = None \<Longrightarrow>
     ai_game a (b[i := Some (opponent a)]) a"

text \<open>
  Self-play, as the claim describes it: both sides take the move of \<^verbatim>\<open>getBestMove\<close> in turn
  until \<^verbatim>\<open>checkWinner\<close> reports a result, which is returned. The first argument bounds the
  number of rounds; \<open>None\<close> means that the bound was reached or that \<^verbatim>\<open>getBestMove\<close> found
  no move.
\<close>

fun self_play :: "nat \<Rightarrow> Player list \<Rightarrow> player \<Rightarrow> outcome option" where
  "self_play 0 b t = None"
| "self_play (Suc n) b t =
     (case checkWinner b of
        Some r \<Rightarrow> Some (winner r)
      | None \<Rightarrow>
          (let m = getBestMove b (Some t)
           in if m = - 1 then None else self_play n (b[nat m := Some t]) (opponent t)))"

section \<open>Properties of the handlers\<close>

lemma join_room_ok: "rooms_ok st \<Longrightarrow> rooms_ok (fst (join_room st sock rc))"
  by (auto simp: rooms_ok_def room_ok_def join_room_def Let_def split: option.splits if_splits)

lemma make_move_ok: "rooms_ok st \<Longrightarrow> rooms_ok (fst (make_move st sock rc i s))"
  by (auto simp: rooms_ok_def room_ok_def make_move_def Let_def split: option.splits if_splits)

lemma reset_game_ok: "rooms_ok st \<Longrightarrow> rooms_ok (fst (reset_game st sock rc))"
  by (auto simp: rooms_ok_def room_ok_def reset_game_def Let_def split: option.splits if_splits)

lemma disconnect_ok: "rooms_ok st \<Longrightarrow> rooms_ok (fst (disconnect st sock))"
  by (auto simp: rooms_ok_def disconnect_def)

lemma handle_ok: "rooms_ok st \<Longrightarrow> rooms_ok (fst (handle st m))"
proof (cases m)
  case (Pair sock msg)
  assume "rooms_ok st"
  then show ?thesis unfolding Pair
    by (cases msg) (simp_all add: join_room_ok make_move_ok reset_game_ok disconnect_ok)
qed

lemma reachable_ok: "reachable st \<Longrightarrow> rooms_ok st"
proof (induction rule: reachable.induct)
  case (start st)
  then show ?case by (simp add: rooms_ok_def)
next
  case (step st m)
  then show ?case by (simp add: handle_ok)
qed

lemma make_move_sender: "make_move st sock' rc i s = make_move st sock rc i s"
  by (simp add: make_move_def)

lemma make_move_unknown: "rooms st rc = None \<Longrightarrow> make_move st sock rc i s = (st, [])"
  by (simp add: make_move_def)

lemma make_move_rejected:
  "rooms st rc = Some room \<Longrightarrow> \<not> (cell_at (board room) i = Some None \<and> turn room = s) \<Longrightarrow>
   make_move st sock rc i s = (st, [])"
  by (simp add: make_move_def)

lemma make_move_accepted:
  "rooms st rc = Some room \<Longrightarrow> cell_at (board room) i = Some None \<Longrightarrow> turn room = s \<Longrightarrow>
   make_move st sock rc i s =
     (st\<lparr>rooms := (rooms st)(rc \<mapsto>
            room\<lparr>board := (board room)[nat i := s],
                 turn := (if s = Some PX then Some PO else Some PX)\<rparr>)\<rparr>,
      [To_room rc (move_made ((board room)[nat i := s])
                             (if s = Some PX then Some PO else Some PX))])"
  by (simp add: make_move_def Let_def)

lemma cell_at_Some: "cell_at xs i = Some v \<Longrightarrow> 0 \<le> i \<and> nat i < length xs \<and> xs ! nat i = v"
  by (auto simp: cell_at_def split: if_splits)

lemma join_room_fresh:
  "rooms st rc = None \<Longrightarrow>
   join_room st sock rc =
     (st\<lparr>members := (members st)(rc := insert sock (members st rc)),
         rooms := (rooms st)(rc \<mapsto> \<lparr>players = [sock], board = replicate 9 None, turn = Some PX\<rparr>)\<rparr>,
      [To_socket sock (player_assignment PX)])"
  by (simp add: join_room_def)

lemma join_room_second:
  "rooms st rc = Some room \<Longrightarrow> length (players room) < 2 \<Longrightarrow>
   join_room st sock rc =
     (st\<lparr>members := (members st)(rc := insert sock (members st rc)),
         rooms := (rooms st)(rc \<mapsto> room\<lparr>players := players room @ [sock]\<rparr>)\<rparr>,
      [To_socket sock (player_assignment PO), To_room rc (game_ready (board room) (turn room))])"
  by (simp add: join_room_def Let_def)

lemma join_room_full:
  "rooms st rc = Some room \<Longrightarrow> \<not> length (players room) < 2 \<Longrightarrow>
   join_room st sock rc =
     (st\<lparr>members := (members st)(rc := insert sock (members st rc))\<rparr>,
      [To_socket sock (error ''Room is full'')])"
  by (simp add: join_room_def)

lemma reset_game_unknown: "rooms st rc = None \<Longrightarrow> reset_game st sock rc = (st, [])"
  by (simp add: reset_game_def)


lemma fst_run_Cons: "fst (run st (m # ms)) = fst (run (fst (handle st m)) ms)"
  by (simp add: split_def Let_def)

lemma snd_run_Cons:
  "snd (run st (m # ms)) =
     map (\<lambda>e. (e, recipients (fst (handle st m)) e)) (snd (handle st m)) @
     snd (run (fst (handle st m)) ms)"
  by (simp add: split_def Let_def)

lemma handle_members:
  "m \<noteq> (sock, Disconnect) \<Longrightarrow> sock \<in> members st rc \<Longrightarrow> sock \<in> members (fst (handle st m)) rc"
proof (cases m)
  case (Pair s' msg)
  assume a: "m \<noteq> (sock, Disconnect)" "sock \<in> members st rc"
  show ?thesis
  proof (cases msg)
    case (Join_room rc')
    with Pair a show ?thesis
      by (auto simp: join_room_def Let_def split: option.splits)
  next
    case (Make_move rc' i s)
    with Pair a show ?thesis
      by (simp add: make_move_def Let_def split: option.splits)
  next
    case (Reset_game rc')
    with Pair a show ?thesis
      by (simp add: reset_game_def Let_def split: option.splits)
  next
    case Disconnect
    with Pair a show ?thesis
      by (auto simp: disconnect_def)
  qed
qed

lemma handle_players:
  assumes "rooms st rc = Some r" and "snd m = Join_room rc \<longrightarrow> \<not> length (players r) < 2"
  shows "\<exists>r'. rooms (fst (handle st m)) rc = Some r' \<and> players r' = players r"
proof (cases m)
  case (Pair s' msg)
  show ?thesis
  proof (cases msg)
    case (Join_room rc')
    with Pair assms show ?thesis
      by (cases "rc' = rc") (simp_all add: join_room_def Let_def split: option.splits)
  next
    case (Make_move rc' i s)
    with Pair assms show ?thesis
      by (cases "rc' = rc") (simp_all add: make_move_def Let_def split: option.splits)
  next
    case (Reset_game rc')
    with Pair assms show ?thesis
      by (cases "rc' = rc") (simp_all add: reset_game_def Let_def split: option.splits)
  next
    case Disconnect
    with Pair assms show ?thesis
      by (simp add: disconnect_def)
  qed
qed

lemma handle_untouched:
  assumes "rooms st rc = Some r" and "board r = replicate 9 None" and "turn r = Some PX"
    and "\<forall>i s. snd m \<noteq> Make_move rc i s"
  shows "\<exists>r'. rooms (fst (handle st m)) rc = Some r' \<and> board r' = replicate 9 None \<and> turn r' = Some PX"
proof (cases m)
  case (Pair s' msg)
  show ?thesis
  proof (cases msg)
    case (Join_room rc')
    with Pair assms show ?thesis
      by (cases "rc' = rc") (simp_all add: join_room_def Let_def split: option.splits)
  next
    case (Make_move rc' i s)
    with Pair assms have "rc' \<noteq> rc" by auto
    with Make_move Pair assms show ?thesis
      by (simp add: make_move_def Let_def split: option.splits)
  next
    case (Reset_game rc')
    with Pair assms show ?thesis
      by (cases "rc' = rc") (simp_all add: reset_game_def Let_def split: option.splits)
  next
    case Disconnect
    with Pair assms show ?thesis
      by (simp add: disconnect_def)
  qed
qed

lemma handle_exists:
  assumes "rooms st rc = Some r"
  shows "\<exists>r'. rooms (fst (handle st m)) rc = Some r'"
proof (cases m)
  case (Pair s' msg)
  show ?thesis
  proof (cases msg)
    case (Join_room rc')
    with Pair assms show ?thesis
      by (cases "rc' = rc") (simp_all add: join_room_def Let_def split: option.splits)
  next
    case (Make_move rc' i s)
    with Pair assms show ?thesis
      by (cases "rc' = rc") (simp_all add: make_move_def Let_def split: option.splits)
  next
    case (Reset_game rc')
    with Pair assms show ?thesis
      by (cases "rc' = rc") (simp_all add: reset_game_def Let_def split: option.splits)
  next
    case Disconnect
    with Pair assms show ?thesis
      by (simp add: disconnect_def)
  qed
qed

lemma run_members:
  "(sock, Disconnect) \<notin> set ms \<Longrightarrow> sock \<in> members st rc \<Longrightarrow> sock \<in> members (fst (run st ms)) rc"
proof (induction ms arbitrary: st)
  case Nil
  then show ?case by simp
next
  case (Cons m ms)
  from Cons.prems have "m \<noteq> (sock, Disconnect)" by auto
  then have "sock \<in> members (fst (handle st m)) rc" using Cons.prems(2) by (rule handle_members)
  with Cons show ?case by (simp add: fst_run_Cons del: run.simps)
qed

lemma run_log_members:
  "(sock, Disconnect) \<notin> set ms \<Longrightarrow> sock \<in> members st rc \<Longrightarrow>
   (To_room rc ev, R) \<in> set (snd (run st ms)) \<Longrightarrow> sock \<in> R"
proof (induction ms arbitrary: st)
  case Nil
  then show ?case by simp
next
  case (Cons m ms)
  from Cons.prems have "m \<noteq> (sock, Disconnect)" by auto
  then have mem: "sock \<in> members (fst (handle st m)) rc"
    using Cons.prems(2) by (rule handle_members)
  from Cons.prems(3) consider
    (now) "(To_room rc ev, R) \<in> set (map (\<lambda>e. (e, recipients (fst (handle st m)) e)) (snd (handle st m)))"
    | (later) "(To_room rc ev, R) \<in> set (snd (run (fst (handle st m)) ms))"
    by (auto simp: snd_run_Cons simp del: run.simps)
  then show ?case
  proof cases
    case now
    then have "R = recipients (fst (handle st m)) (To_room rc ev)" by auto
    with mem show ?thesis by simp
  next
    case later
    with Cons.IH [of "fst (handle st m)"] Cons.prems(1) mem show ?thesis by simp
  qed
qed

lemma run_players:
  "rooms st rc = Some r \<Longrightarrow>
   (\<forall>m \<in> set ms. snd m \<noteq> Join_room rc) \<or> \<not> length (players r) < 2 \<Longrightarrow>
   \<exists>r'. rooms (fst (run st ms)) rc = Some r' \<and> players r' = players r"
proof (induction ms arbitrary: st r)
  case Nil
  then show ?case by simp
next
  case (Cons m ms)
  from Cons.prems(2) have "snd m = Join_room rc \<longrightarrow> \<not> length (players r) < 2" by auto
  from handle_players [OF Cons.prems(1) this] obtain r1 where
    r1: "rooms (fst (handle st m)) rc = Some r1" "players r1 = players r" by blast
  with Cons.prems(2) have "(\<forall>m \<in> set ms. snd m \<noteq> Join_room rc) \<or> \<not> length (players r1) < 2"
    by auto
  from Cons.IH [OF r1(1) this] r1(2) show ?case by (simp add: fst_run_Cons del: run.simps)
qed

lemma run_untouched:
  "rooms st rc = Some r \<Longrightarrow> board r = replicate 9 None \<Longrightarrow> turn r = Some PX \<Longrightarrow>
   \<forall>m \<in> set ms. \<forall>i s. snd m \<noteq> Make_move rc i s \<Longrightarrow>
   \<exists>r'. rooms (fst (run st ms)) rc = Some r' \<and> board r' = replicate 9 None \<and> turn r' = Some PX"
proof (induction ms arbitrary: st r)
  case Nil
  then show ?case by simp
next
  case (Cons m ms)
  from Cons.prems(4) have "\<forall>i s. snd m \<noteq> Make_move rc i s" by simp
  from handle_untouched [OF Cons.prems(1-3) this] obtain r1 where
    r1: "rooms (fst (handle st m)) rc = Some r1"
    "board r1 = replicate 9 None" "turn r1 = Some PX" by blast
  from Cons.prems(4) have "\<forall>m \<in> set ms. \<forall>i s. snd m \<noteq> Make_move rc i s" by simp
  from Cons.IH [OF r1 this] show ?case by (simp add: fst_run_Cons del: run.simps)
qed


subsection \<open>The sample states\<close>

lemma st_one_room:
  "rooms st_one ''A'' = Some \<lparr>players = [''s1''], board = replicate 9 None, turn = Some PX\<rparr>"
  by (simp add: st_one_def join_room_def init_def)

lemma replicate9: "replicate 9 x = [x, x, x, x, x, x, x, x, x]"
  by (simp add: eval_nat_numeral)

lemma st_one_cell: "cell_at (replicate 9 (None :: Player)) 4 = Some None"
  by (simp add: cell_at_def)

lemma reachable_st_one: "reachable st_one"
  unfolding st_one_def
  using reachable.step [OF reachable.start [of init], of "(''s1'', Join_room ''A'')"]
  by (simp add: init_def)

lemma st_one_members: "members st_one ''A'' = {''s1''}"
  by (simp add: st_one_def join_room_def init_def)

lemma st_two_room:
  "rooms st_two ''A'' = Some \<lparr>players = [''s1'', ''s2''], board = replicate 9 None, turn = Some PX\<rparr>"
  by (simp add: st_two_def join_room_second [OF st_one_room])

lemma st_two_members: "members st_two ''A'' = {''s2'', ''s1''}"
  by (simp add: st_two_def join_room_second [OF st_one_room] st_one_members)

lemma st_three_join:
  "join_room st_two ''s3'' ''A'' = (st_three, [To_socket ''s3'' (error ''Room is full'')])"
  by (simp add: st_three_def join_room_full [OF st_two_room])

lemma st_three_room:
  "rooms st_three ''A'' = Some \<lparr>players = [''s1'', ''s2''], board = replicate 9 None, turn = Some PX\<rparr>"
  by (simp add: st_three_def join_room_full [OF st_two_room] st_two_room)

lemma st_three_members: "members st_three ''A'' = {''s3'', ''s2'', ''s1''}"
  by (simp add: st_three_def join_room_full [OF st_two_room] st_two_members)

lemma st_three_log:
  "snd (run st_three [(''s1'', Make_move ''A'' 0 (Some PX)), (''s2'', Reset_game ''A'')]) =
     [(To_room ''A'' (move_made [Some PX, None, None, None, None, None, None, None, None] (Some PO)),
       {''s3'', ''s2'', ''s1''}),
      (To_room ''A'' (game_reset (replicate 9 None) (Some PX)), {''s3'', ''s2'', ''s1''})]"
proof -
  have c: "cell_at (replicate 9 (None :: Player)) 0 = Some None" by (simp add: cell_at_def)
  have m: "make_move st_three ''s1'' ''A'' 0 (Some PX) =
     (st_three\<lparr>rooms := (rooms st_three)(''A'' \<mapsto>
         \<lparr>players = [''s1'', ''s2''], board = [Some PX, None, None, None, None, None, None, None, None],
          turn = Some PO\<rparr>)\<rparr>,
      [To_room ''A'' (move_made [Some PX, None, None, None, None, None, None, None, None] (Some PO))])"
    by (simp add: make_move_def st_three_room cell_at_def replicate9)
  show ?thesis
    by (simp add: m reset_game_def Let_def st_three_members)
qed

lemma st_moved_room:
  "rooms st_moved ''A'' =
     Some \<lparr>players = [''s1''],
           board = [Some PX, None, None, None, None, None, None, None, None], turn = Some PO\<rparr>"
  by (simp add: st_moved_def make_move_def st_one_room cell_at_def replicate9)

lemma st_one_move:
  "snd (make_move st_one ''s1'' ''A'' 0 (Some PX)) =
     [To_room ''A'' (move_made [Some PX, None, None, None, None, None, None, None, None] (Some PO))]"
  by (simp add: make_move_def st_one_room cell_at_def replicate9)


section \<open>Properties of the board engine\<close>

lemma cell_at_nth: "a < length xs \<Longrightarrow> cell_at xs (int a) = Some (xs ! a)"
  by (simp add: cell_at_def)

lemma first_line_hit:
  assumes "combo = [a, b, c]" "a < length squares" "b < length squares" "c < length squares"
    and "\<forall>i \<in> set combo. squares ! i = Some p"
  shows "first_line squares (combo # rest) = Some \<lparr>winner = Won p, line = Some combo\<rparr>"
  using assms by (simp add: cell_at_nth)

lemma first_line_miss:
  assumes "combo = [a, b, c]" "a < length squares" "b < length squares" "c < length squares"
    and "\<forall>q. \<not> (\<forall>i \<in> set combo. squares ! i = Some q)"
  shows "first_line squares (combo # rest) = first_line squares rest"
proof (cases "squares ! a")
  case None
  with assms(1,2) show ?thesis by (simp add: cell_at_nth)
next
  case (Some p)
  with assms(5) [rule_format, of p] assms(1) have "squares ! b \<noteq> Some p \<or> squares ! c \<noteq> Some p"
    by auto
  with Some assms(1-4) show ?thesis by (auto simp: cell_at_nth)
qed

lemma first_line_None:
  "triples_in squares cs \<Longrightarrow>
   first_line squares cs = None \<longleftrightarrow>
     (\<forall>combo \<in> set cs. \<forall>q. \<not> (\<forall>i \<in> set combo. squares ! i = Some q))"
proof (induction cs)
  case Nil
  then show ?case by simp
next
  case (Cons combo rest)
  from Cons.prems obtain a b c where t: "combo = [a, b, c]" "a < length squares"
    "b < length squares" "c < length squares" and rest: "triples_in squares rest"
    by (auto simp: triples_in_def)
  show ?case
  proof (cases "\<exists>p. \<forall>i \<in> set combo. squares ! i = Some p")
    case True
    then obtain p where p: "\<forall>i \<in> set combo. squares ! i = Some p" ..
    from first_line_hit [OF t p] p show ?thesis by auto
  next
    case False
    then have "\<forall>q. \<not> (\<forall>i \<in> set combo. squares ! i = Some q)" by simp
    from first_line_miss [OF t this] this Cons.IH [OF rest] show ?thesis by simp
  qed
qed

lemma first_line_Some:
  "triples_in squares cs \<Longrightarrow>
   first_line squares cs = Some r \<longleftrightarrow>
     (\<exists>k < length cs. \<exists>p. r = \<lparr>winner = Won p, line = Some (cs ! k)\<rparr> \<and>
        (\<forall>i \<in> set (cs ! k). squares ! i = Some p) \<and>
        (\<forall>j < k. \<forall>q. \<not> (\<forall>i \<in> set (cs ! j). squares ! i = Some q)))"
proof (induction cs)
  case Nil
  then show ?case by simp
next
  case (Cons combo rest)
  from Cons.prems obtain a b c where t: "combo = [a, b, c]" "a < length squares"
    "b < length squares" "c < length squares" and rest: "triples_in squares rest"
    by (auto simp: triples_in_def)
  let ?R = "\<lambda>cs k p. r = \<lparr>winner = Won p, line = Some (cs ! k)\<rparr> \<and>
        (\<forall>i \<in> set (cs ! k). squares ! i = Some p) \<and>
        (\<forall>j < k. \<forall>q. \<not> (\<forall>i \<in> set (cs ! j). squares ! i = Some q))"
  show ?case
  proof (cases "\<exists>p. \<forall>i \<in> set combo. squares ! i = Some p")
    case True
    then obtain p where p: "\<forall>i \<in> set combo. squares ! i = Some p" ..
    note fl = first_line_hit [OF t p, of rest]
    show ?thesis
    proof
      assume "first_line squares (combo # rest) = Some r"
      with fl have "r = \<lparr>winner = Won p, line = Some combo\<rparr>" by simp
      with p have "?R (combo # rest) 0 p" by simp
      then show "\<exists>k < length (combo # rest). \<exists>p. ?R (combo # rest) k p" by blast
    next
      assume "\<exists>k < length (combo # rest). \<exists>p. ?R (combo # rest) k p"
      then obtain k p' where k: "k < length (combo # rest)" "?R (combo # rest) k p'" by blast
      have "k = 0"
      proof (rule ccontr)
        assume "k \<noteq> 0"
        then have "0 < k" by simp
        with k(2) have "\<not> (\<forall>i \<in> set ((combo # rest) ! 0). squares ! i = Some p)" by blast
        with p show False by simp
      qed
      with k(2) have r: "r = \<lparr>winner = Won p', line = Some combo\<rparr>"
        and "\<forall>i \<in> set combo. squares ! i = Some p'" by simp_all
      with p t(1) have "p' = p" by auto
      with r fl show "first_line squares (combo # rest) = Some r" by simp
    qed
  next
    case False
    then have miss: "\<forall>q. \<not> (\<forall>i \<in> set combo. squares ! i = Some q)" by simp
    note fl = first_line_miss [OF t miss, of rest]
    show ?thesis
    proof
      assume "first_line squares (combo # rest) = Some r"
      with fl Cons.IH [OF rest] obtain k p where "k < length rest" "?R rest k p" by auto
      with miss have "Suc k < length (combo # rest) \<and> ?R (combo # rest) (Suc k) p"
        by (auto simp: less_Suc_eq_0_disj)
      then show "\<exists>k < length (combo # rest). \<exists>p. ?R (combo # rest) k p" by blast
    next
      assume "\<exists>k < length (combo # rest). \<exists>p. ?R (combo # rest) k p"
      then obtain k p where k: "k < length (combo # rest)" "?R (combo # rest) k p" by blast
      from k(2) miss have "k \<noteq> 0" by (cases k) auto
      then obtain k' where k': "k = Suc k'" by (cases k) auto
      with k have "k' < length rest \<and> ?R rest k' p" by auto
      with Cons.IH [OF rest] fl show "first_line squares (combo # rest) = Some r" by auto
    qed
  qed
qed

lemma triples_in_WINNING:
  "length squares = 9 \<Longrightarrow> triples_in squares WINNING_COMBINATIONS"
  by (simp add: triples_in_def WINNING_COMBINATIONS_def)

lemma length_WINNING: "length WINNING_COMBINATIONS = 8"
  by (simp add: WINNING_COMBINATIONS_def)

lemma all_filled_iff:
  "list_all (\<lambda>s. s \<noteq> None) squares \<longleftrightarrow> (\<forall>i < length squares. squares ! i \<noteq> None)"
  by (simp add: list_all_length del: not_None_eq)

lemma checkWinner_hit:
  "first_line squares WINNING_COMBINATIONS = Some r \<Longrightarrow> checkWinner squares = Some r"
  by (simp add: checkWinner_def)

lemma checkWinner_draw:
  "first_line squares WINNING_COMBINATIONS = None \<Longrightarrow> \<forall>i < length squares. squares ! i \<noteq> None \<Longrightarrow>
   checkWinner squares = Some \<lparr>winner = Draw, line = None\<rparr>"
  by (simp add: checkWinner_def all_filled_iff del: not_None_eq)

lemma checkWinner_open:
  "first_line squares WINNING_COMBINATIONS = None \<Longrightarrow> \<exists>i < length squares. squares ! i = None \<Longrightarrow>
   checkWinner squares = None"
  by (simp add: checkWinner_def all_filled_iff del: not_None_eq)

lemma first_line_winner:
  assumes "triples_in squares cs" and "first_line squares cs = Some r"
  shows "\<exists>p. winner r = Won p"
proof -
  from first_line_Some [OF assms(1), of r] assms(2)
  obtain k p where "r = \<lparr>winner = Won p, line = Some (cs ! k)\<rparr>" by blast
  then show ?thesis by simp
qed

lemma WINNING_geometry:
  "set WINNING_COMBINATIONS =
     (\<lambda>r. [3 * r, 3 * r + 1, 3 * r + 2]) ` {0, 1, 2} \<union>
     (\<lambda>c. [c, c + 3, c + 6]) ` {0, 1, 2} \<union> {[0, 4, 8], [2, 4, 6]}"
  unfolding WINNING_COMBINATIONS_def by (simp add: insert_commute numeral_2_eq_2)

section \<open>Properties of the search\<close>

lemma upt9: "[0..<9] = [0, 1, 2, 3, 4, 5, 6, 7, 8]"
  by (simp add: upt_rec)

lemma opponent_if: "(if Some a = Some PX then PO else PX) = opponent a"
  by (cases a) simp_all

lemma opponent_neq: "opponent a \<noteq> a"
  by (cases a) simp_all

lemma opponent_other: "p \<noteq> a \<Longrightarrow> p = opponent a"
  by (cases a; cases p) simp_all

lemma fold_if_filter:
  "fold (\<lambda>i acc. if c i then f i acc else acc) xs acc = fold f (filter c xs) acc"
  by (induction xs arbitrary: acc) simp_all

lemma minimax_unfold:
  "minimax squares depth isMaximizing (Some a) =
     (if winner_is (checkWinner squares) (Some a) then Fin (10 - depth)
      else if winner_is (checkWinner squares) (Some (opponent a)) then Fin (depth - 10)
      else if is_draw (checkWinner squares) then Fin 0
      else if isMaximizing then
        fold (\<lambda>i. score_max (minimax (squares[i := Some a]) (depth + 1) False (Some a)))
          (moves squares) NegInf
      else
        fold (\<lambda>i. score_min (minimax (squares[i := Some (opponent a)]) (depth + 1) True (Some a)))
          (moves squares) PosInf)"
  by (cases a; subst minimax.simps; simp add: Let_def fold_if_filter moves_def)

lemma getBestMove_unfold:
  "getBestMove squares (Some a) =
     snd (fold (\<lambda>i (bestScore, move).
                  let score = minimax (squares[i := Some a]) 0 False (Some a)
                  in if score_less bestScore score then (score, int i) else (bestScore, move))
            (moves squares) (NegInf, - 1))"
proof -
  have "(\<lambda>i (bestScore, move).
            if cell_at squares (int i) = Some None then
              (let score = minimax (squares[i := Some a]) 0 False (Some a)
               in if score_less bestScore score then (score, int i) else (bestScore, move))
            else (bestScore, move)) =
        (\<lambda>i acc. if cell_at squares (int i) = Some None then
              (\<lambda>(bestScore, move). let score = minimax (squares[i := Some a]) 0 False (Some a)
               in if score_less bestScore score then (score, int i) else (bestScore, move)) acc
            else acc)"
    by (auto simp: fun_eq_iff)
  then show ?thesis
    by (simp only: getBestMove_def fold_if_filter moves_def)
qed

lemma moves_iff: "length squares = 9 \<Longrightarrow> i \<in> set (moves squares) \<longleftrightarrow> i < 9 \<and> squares ! i = None"
  by (auto simp: moves_def cell_at_def)

lemma empties_update:
  "i < length xs \<Longrightarrow> xs ! i = None \<Longrightarrow> Suc (empties (xs[i := Some p])) = empties xs"
proof (induction xs arbitrary: i)
  case Nil
  then show ?case by simp
next
  case (Cons x xs)
  show ?case
  proof (cases i)
    case 0
    with Cons.prems show ?thesis by (simp add: empties_def)
  next
    case (Suc j)
    with Cons.prems have "j < length xs" "xs ! j = None" by simp_all
    from Cons.IH [OF this] Suc show ?thesis by (simp add: empties_def)
  qed
qed

lemma empties_pos: "i < length xs \<Longrightarrow> xs ! i = None \<Longrightarrow> 0 < empties xs"
  by (auto simp: empties_def filter_empty_conv in_set_conv_nth)

lemma empties_zero: "empties xs = 0 \<longleftrightarrow> None \<notin> set xs"
  by (induction xs) (auto simp: empties_def)

lemma score_max_Fin [simp]: "score_max (Fin a) (Fin b) = Fin (max a b)"
  by (simp add: score_max_def max_def)

lemma score_max_NegInf [simp]: "score_max (Fin a) NegInf = Fin a"
  by (simp add: score_max_def)

lemma score_min_Fin [simp]: "score_min (Fin a) (Fin b) = Fin (min a b)"
  by (simp add: score_min_def min_def)

lemma score_min_PosInf [simp]: "score_min (Fin a) PosInf = Fin a"
  by (simp add: score_min_def)

lemma fold_max_acc:
  "\<forall>j \<in> set js. g j = Fin (v j) \<Longrightarrow>
   fold (\<lambda>i. score_max (g i)) js (Fin r) = Fin (fold (\<lambda>i. max (v i)) js r)"
  by (induction js arbitrary: r) simp_all

lemma fold_min_acc:
  "\<forall>j \<in> set js. g j = Fin (v j) \<Longrightarrow>
   fold (\<lambda>i. score_min (g i)) js (Fin r) = Fin (fold (\<lambda>i. min (v i)) js r)"
  by (induction js arbitrary: r) simp_all

lemma fold_int_max:
  fixes v :: "'a \<Rightarrow> int"
  shows "r \<le> fold (\<lambda>i. max (v i)) js r \<and> (\<forall>j \<in> set js. v j \<le> fold (\<lambda>i. max (v i)) js r) \<and>
         (fold (\<lambda>i. max (v i)) js r = r \<or> (\<exists>j \<in> set js. fold (\<lambda>i. max (v i)) js r = v j))"
proof (induction js arbitrary: r)
  case Nil
  show ?case by simp
next
  case (Cons j js)
  from Cons [of "max (v j) r"] show ?case by (auto simp: max_def split: if_splits)
qed

lemma fold_int_min:
  fixes v :: "'a \<Rightarrow> int"
  shows "fold (\<lambda>i. min (v i)) js r \<le> r \<and> (\<forall>j \<in> set js. fold (\<lambda>i. min (v i)) js r \<le> v j) \<and>
         (fold (\<lambda>i. min (v i)) js r = r \<or> (\<exists>j \<in> set js. fold (\<lambda>i. min (v i)) js r = v j))"
proof (induction js arbitrary: r)
  case Nil
  show ?case by simp
next
  case (Cons j js)
  from Cons [of "min (v j) r"] show ?case by (auto simp: min_def split: if_splits)
qed

lemma max_moves:
  assumes "js \<noteq> []" and "\<forall>j \<in> set js. g j = Fin (v j)"
  shows "\<exists>r. fold (\<lambda>i. score_max (g i)) js NegInf = Fin r \<and>
             (\<exists>j \<in> set js. v j = r) \<and> (\<forall>j \<in> set js. v j \<le> r)"
proof -
  from assms(1) obtain j js' where js: "js = j # js'" by (cases js) auto
  with assms(2) have g: "g j = Fin (v j)" and rest: "\<forall>i \<in> set js'. g i = Fin (v i)" by simp_all
  let ?r = "fold (\<lambda>i. max (v i)) js' (v j)"
  have "fold (\<lambda>i. score_max (g i)) js NegInf = Fin ?r"
    by (simp add: js g fold_max_acc [OF rest])
  moreover from fold_int_max [of "v j" v js'] js
  have "(\<exists>i \<in> set js. v i = ?r) \<and> (\<forall>i \<in> set js. v i \<le> ?r)" by auto
  ultimately show ?thesis by blast
qed

lemma min_moves:
  assumes "js \<noteq> []" and "\<forall>j \<in> set js. g j = Fin (v j)"
  shows "\<exists>r. fold (\<lambda>i. score_min (g i)) js PosInf = Fin r \<and>
             (\<exists>j \<in> set js. v j = r) \<and> (\<forall>j \<in> set js. r \<le> v j)"
proof -
  from assms(1) obtain j js' where js: "js = j # js'" by (cases js) auto
  with assms(2) have g: "g j = Fin (v j)" and rest: "\<forall>i \<in> set js'. g i = Fin (v i)" by simp_all
  let ?r = "fold (\<lambda>i. min (v i)) js' (v j)"
  have "fold (\<lambda>i. score_min (g i)) js PosInf = Fin ?r"
    by (simp add: js g fold_min_acc [OF rest])
  moreover from fold_int_min [of v js' "v j"] js
  have "(\<exists>i \<in> set js. v i = ?r) \<and> (\<forall>i \<in> set js. ?r \<le> v i)" by auto
  ultimately show ?thesis by blast
qed

lemma winner_is_exclusive: "winner_is r (Some a) \<Longrightarrow> \<not> winner_is r (Some (opponent a))"
  by (cases a) (auto simp: winner_is_def split: option.splits outcome.splits)

lemma is_draw_no_winner: "is_draw r \<Longrightarrow> \<not> winner_is r s"
  by (auto simp: winner_is_def is_draw_def split: option.splits outcome.splits)

lemma open_game:
  assumes "\<not> winner_is (checkWinner b) (Some a)" "\<not> winner_is (checkWinner b) (Some (opponent a))"
    "\<not> is_draw (checkWinner b)"
  shows "checkWinner b = None"
proof (cases "checkWinner b")
  case None
  then show ?thesis .
next
  case (Some r)
  show ?thesis
  proof (cases "winner r")
    case (Won p)
    with Some assms(1,2) opponent_other [of p a] show ?thesis
      by (auto simp: winner_is_def)
  next
    case Draw
    with Some assms(3) show ?thesis by (simp add: is_draw_def)
  qed
qed

lemma open_game_not:
  "checkWinner b = None \<Longrightarrow> \<not> winner_is (checkWinner b) s \<and> \<not> is_draw (checkWinner b)"
  by (simp add: winner_is_def is_draw_def)

lemma open_game_moves:
  assumes "length b = 9" and "checkWinner b = None"
  shows "moves b \<noteq> []"
proof -
  from assms(2) have "\<not> list_all (\<lambda>s. s \<noteq> None) b"
    by (auto simp: checkWinner_def split: option.splits if_splits)
  then obtain i where "i < length b" "b ! i = None"
    by (auto simp: list_all_length)
  with assms(1) have "i \<in> set (moves b)" by (simp add: moves_iff)
  then show ?thesis by auto
qed

lemma minimax_Fin: "length b = 9 \<Longrightarrow> \<exists>v. minimax b d m (Some a) = Fin v"
proof (induction "empties b" arbitrary: b d m rule: less_induct)
  case less
  note len = less.prems
  have sub: "\<exists>v. minimax (b[i := Some p]) d' m' (Some a) = Fin v" if "i \<in> set (moves b)" for i p d' m'
  proof -
    from that len have i: "i < length b" "b ! i = None" by (simp_all add: moves_iff)
    from empties_update [OF i, of p] have "empties (b[i := Some p]) < empties b" by simp
    moreover from len have "length (b[i := Some p]) = 9" by simp
    ultimately show ?thesis by (rule less.hyps)
  qed
  show ?case
  proof (cases "winner_is (checkWinner b) (Some a) \<or> winner_is (checkWinner b) (Some (opponent a))
      \<or> is_draw (checkWinner b)")
    case True
    then show ?thesis by (subst minimax_unfold) auto
  next
    case False
    then have o: "checkWinner b = None" by (intro open_game [of b a]) simp_all
    from open_game_moves [OF len o] have ne: "moves b \<noteq> []" .
    show ?thesis
    proof (cases m)
      case True
      let ?g = "\<lambda>i. minimax (b[i := Some a]) (d + 1) False (Some a)"
      have "\<forall>i \<in> set (moves b). ?g i = Fin (val (?g i))"
      proof
        fix i assume "i \<in> set (moves b)"
        from sub [OF this, of a "d + 1" False] show "?g i = Fin (val (?g i))" by auto
      qed
      from max_moves [OF ne this] False True show ?thesis
        by (subst minimax_unfold) auto
    next
      case m: False
      let ?g = "\<lambda>i. minimax (b[i := Some (opponent a)]) (d + 1) True (Some a)"
      have "\<forall>i \<in> set (moves b). ?g i = Fin (val (?g i))"
      proof
        fix i assume "i \<in> set (moves b)"
        from sub [OF this, of "opponent a" "d + 1" True] show "?g i = Fin (val (?g i))" by auto
      qed
      from min_moves [OF ne this] False m show ?thesis
        by (subst minimax_unfold) auto
    qed
  qed
qed

lemma minimax_mmv: "length b = 9 \<Longrightarrow> minimax b d m (Some a) = Fin (mmv b d m a)"
  using minimax_Fin [of b d m a] by (auto simp: mmv_def)

lemma mmv_win: "winner_is (checkWinner b) (Some a) \<Longrightarrow> mmv b d m a = 10 - d"
  unfolding mmv_def by (subst minimax_unfold) simp

lemma mmv_loss: "winner_is (checkWinner b) (Some (opponent a)) \<Longrightarrow> mmv b d m a = d - 10"
  unfolding mmv_def using winner_is_exclusive [of "checkWinner b" a]
  by (subst minimax_unfold) auto

lemma mmv_draw: "is_draw (checkWinner b) \<Longrightarrow> mmv b d m a = 0"
  unfolding mmv_def using is_draw_no_winner [of "checkWinner b"]
  by (subst minimax_unfold) simp

lemma mmv_max:
  assumes "length b = 9" and "checkWinner b = None"
  shows "(\<exists>i \<in> set (moves b). mmv (b[i := Some a]) (d + 1) False a = mmv b d True a) \<and>
         (\<forall>i \<in> set (moves b). mmv (b[i := Some a]) (d + 1) False a \<le> mmv b d True a)"
proof -
  let ?g = "\<lambda>i. minimax (b[i := Some a]) (d + 1) False (Some a)"
  have "\<forall>i \<in> set (moves b). ?g i = Fin (mmv (b[i := Some a]) (d + 1) False a)"
    using assms(1) by (simp add: minimax_mmv)
  from max_moves [OF open_game_moves [OF assms] this] obtain r where
    r: "fold (\<lambda>i. score_max (?g i)) (moves b) NegInf = Fin r"
    "\<exists>i \<in> set (moves b). mmv (b[i := Some a]) (d + 1) False a = r"
    "\<forall>i \<in> set (moves b). mmv (b[i := Some a]) (d + 1) False a \<le> r" by blast
  from open_game_not [OF assms(2)] r(1) have "minimax b d True (Some a) = Fin r"
    by (subst minimax_unfold) simp
  then have "mmv b d True a = r" by (simp add: mmv_def)
  with r(2,3) show ?thesis by simp
qed

lemma mmv_min:
  assumes "length b = 9" and "checkWinner b = None"
  shows "(\<exists>i \<in> set (moves b). mmv (b[i := Some (opponent a)]) (d + 1) True a = mmv b d False a) \<and>
         (\<forall>i \<in> set (moves b). mmv b d False a \<le> mmv (b[i := Some (opponent a)]) (d + 1) True a)"
proof -
  let ?g = "\<lambda>i. minimax (b[i := Some (opponent a)]) (d + 1) True (Some a)"
  have "\<forall>i \<in> set (moves b). ?g i = Fin (mmv (b[i := Some (opponent a)]) (d + 1) True a)"
    using assms(1) by (simp add: minimax_mmv)
  from min_moves [OF open_game_moves [OF assms] this] obtain r where
    r: "fold (\<lambda>i. score_min (?g i)) (moves b) PosInf = Fin r"
    "\<exists>i \<in> set (moves b). mmv (b[i := Some (opponent a)]) (d + 1) True a = r"
    "\<forall>i \<in> set (moves b). r \<le> mmv (b[i := Some (opponent a)]) (d + 1) True a" by blast
  from open_game_not [OF assms(2)] r(1) have "minimax b d False (Some a) = Fin r"
    by (subst minimax_unfold) simp
  then have "mmv b d False a = r" by (simp add: mmv_def)
  with r(2,3) show ?thesis by simp
qed

lemma best_fold_acc:
  assumes "\<forall>i \<in> set js. g i = Fin (w i)"
  shows "fold (\<lambda>i (bestScore, move). let score = g i
                 in if score_less bestScore score then (score, int i) else (bestScore, move))
           js (Fin r, mv) =
         (case fold (\<lambda>i (r, mv). if r < w i then (w i, int i) else (r, mv)) js (r, mv) of
            (r', mv') \<Rightarrow> (Fin r', mv'))"
  using assms by (induction js arbitrary: r mv) (simp_all add: Let_def)

lemma best_int:
  fixes w :: "nat \<Rightarrow> int"
  assumes "fold (\<lambda>i (r, mv). if r < w i then (w i, int i) else (r, mv)) js (r, mv) = (r', mv')"
  shows "r \<le> r' \<and> (\<forall>i \<in> set js. w i \<le> r') \<and>
         ((r', mv') = (r, mv) \<or> (\<exists>i \<in> set js. mv' = int i \<and> r' = w i)) \<and>
         ((\<forall>i \<in> set js. w i \<le> r) \<longrightarrow> (r', mv') = (r, mv))"
  using assms
proof (induction js arbitrary: r mv)
  case Nil
  then show ?case by simp
next
  case (Cons j js)
  show ?case
  proof (cases "r < w j")
    case True
    with Cons.prems have "fold (\<lambda>i (r, mv). if r < w i then (w i, int i) else (r, mv)) js (w j, int j) = (r', mv')"
      by simp
    from Cons.IH [OF this] True show ?thesis by auto
  next
    case False
    with Cons.prems have "fold (\<lambda>i (r, mv). if r < w i then (w i, int i) else (r, mv)) js (r, mv) = (r', mv')"
      by simp
    from Cons.IH [OF this] False show ?thesis by auto
  qed
qed

lemma best_from_start:
  assumes "\<forall>i \<in> set (j # js). g i = Fin (w i)"
  shows "fold (\<lambda>i (bestScore, move). let score = g i
                 in if score_less bestScore score then (score, int i) else (bestScore, move))
           (j # js) (NegInf, - 1) =
         (case fold (\<lambda>i (r, mv). if r < w i then (w i, int i) else (r, mv)) js (w j, int j) of
            (r', mv') \<Rightarrow> (Fin r', mv'))"
proof -
  let ?F = "\<lambda>i (bestScore, move). let score = g i
                 in if score_less bestScore score then (score, int i) else (bestScore, move)"
  from assms have j: "g j = Fin (w j)" and rest: "\<forall>i \<in> set js. g i = Fin (w i)" by simp_all
  have s: "?F j (NegInf, - 1) = (Fin (w j), int j)" by (simp add: j)
  have "fold ?F (j # js) (NegInf, - 1) = fold ?F js (?F j (NegInf, - 1))" by simp
  also have "\<dots> = fold ?F js (Fin (w j), int j)" by (simp only: s)
  also note best_fold_acc [OF rest]
  finally show ?thesis .
qed

lemma best_first:
  assumes g: "\<forall>j \<in> set (pre @ i # post). g j = Fin (w j)"
    and pre: "\<forall>j \<in> set pre. w j < w i" and post: "\<forall>j \<in> set post. w j \<le> w i"
  shows "fold (\<lambda>i (bestScore, move). let score = g i
                 in if score_less bestScore score then (score, int i) else (bestScore, move))
           (pre @ i # post) (NegInf, - 1) = (Fin (w i), int i)"
proof -
  let ?F = "\<lambda>i (bestScore, move). let score = g i
                 in if score_less bestScore score then (score, int i) else (bestScore, move)"
  let ?FI = "\<lambda>i (r, mv). if r < w i then (w i, int i) else (r, mv)"
  from g have gi: "g i = Fin (w i)" and gpost: "\<forall>j \<in> set post. g j = Fin (w j)"
    and gpre: "\<forall>j \<in> set pre. g j = Fin (w j)" by simp_all
  have at_i: "fold ?F (pre @ [i]) (NegInf, - 1) = (Fin (w i), int i)"
  proof (cases pre)
    case Nil
    then show ?thesis by (simp add: gi Let_def)
  next
    case (Cons j js)
    obtain r' mv' where f: "fold ?FI js (w j, int j) = (r', mv')" by (cases "fold ?FI js (w j, int j)")
    from best_int [OF f] have "r' = w j \<or> (\<exists>k \<in> set js. r' = w k)" by auto
    with pre Cons have lt: "r' < w i" by auto
    from gpre Cons have "\<forall>k \<in> set (j # js). g k = Fin (w k)" by simp
    from best_from_start [OF this] f have "fold ?F pre (NegInf, - 1) = (Fin r', mv')"
      by (simp add: Cons)
    with lt show ?thesis by (simp add: gi Let_def)
  qed
  obtain r' mv' where f: "fold ?FI post (w i, int i) = (r', mv')" by (cases "fold ?FI post (w i, int i)")
  from best_int [OF f] post have "(r', mv') = (w i, int i)" by blast
  with f best_fold_acc [OF gpost, of "w i" "int i"]
  have "fold ?F post (Fin (w i), int i) = (Fin (w i), int i)" by simp
  moreover have "fold ?F (pre @ i # post) (NegInf, - 1) = fold ?F post (fold ?F (pre @ [i]) (NegInf, - 1))"
    by simp
  ultimately show ?thesis using at_i by simp
qed

lemma getBestMove_first:
  assumes "length b = 9" and "moves b = pre @ i # post"
    and "\<forall>j \<in> set pre. mmv (b[j := Some a]) 0 False a < mmv (b[i := Some a]) 0 False a"
    and "\<forall>j \<in> set post. mmv (b[j := Some a]) 0 False a \<le> mmv (b[i := Some a]) 0 False a"
  shows "getBestMove b (Some a) = int i"
proof -
  have "\<forall>j \<in> set (pre @ i # post).
          minimax (b[j := Some a]) 0 False (Some a) = Fin (mmv (b[j := Some a]) 0 False a)"
    using assms(1) by (simp add: minimax_mmv)
  from best_first [OF this assms(3,4)] assms(2) show ?thesis
    by (simp add: getBestMove_unfold)
qed

lemma getBestMove_max:
  assumes "length b = 9" and "moves b \<noteq> []"
  shows "\<exists>i \<in> set (moves b). getBestMove b (Some a) = int i \<and>
           (\<forall>j \<in> set (moves b). mmv (b[j := Some a]) 0 False a \<le> mmv (b[i := Some a]) 0 False a)"
proof -
  let ?w = "\<lambda>j. mmv (b[j := Some a]) 0 False a"
  let ?FI = "\<lambda>i (r, mv). if r < ?w i then (?w i, int i) else (r, mv)"
  from assms(2) obtain j js where js: "moves b = j # js" by (cases "moves b") auto
  have "\<forall>k \<in> set (j # js). minimax (b[k := Some a]) 0 False (Some a) = Fin (?w k)"
    using assms(1) by (simp add: minimax_mmv)
  note start = best_from_start [OF this]
  obtain r' mv' where f: "fold ?FI js (?w j, int j) = (r', mv')" by (cases "fold ?FI js (?w j, int j)")
  from start f js have res: "getBestMove b (Some a) = mv'" by (simp add: getBestMove_unfold)
  from best_int [OF f] have b1: "?w j \<le> r'" and b2: "\<forall>k \<in> set js. ?w k \<le> r'"
    and b3: "(r', mv') = (?w j, int j) \<or> (\<exists>k \<in> set js. mv' = int k \<and> r' = ?w k)" by blast+
  from b3 obtain i where "i \<in> set (j # js)" "mv' = int i" "r' = ?w i" by auto
  with b1 b2 res js show ?thesis by auto
qed

lemma getBestMove_none: "moves b = [] \<Longrightarrow> getBestMove b (Some a) = - 1"
  by (simp add: getBestMove_unfold)

lemma moves_board_last: "moves board_last = [8]"
  by (simp add: moves_def board_last_def cell_at_def upt9)

section \<open>Properties of the sign evaluator, the single-player game and self-play\<close>

lemma nine_cells:
  assumes "length b = 9"
  obtains c0 c1 c2 c3 c4 c5 c6 c7 c8 where "b = [c0, c1, c2, c3, c4, c5, c6, c7, c8]"
proof -
  from assms have "\<exists>c0 c1 c2 c3 c4 c5 c6 c7 c8. b = [c0, c1, c2, c3, c4, c5, c6, c7, c8]"
    by (simp add: eval_nat_numeral length_Suc_conv) blast
  with that show ?thesis by blast
qed

lemma line3_iff: "line3 c c' c'' \<longleftrightarrow> (\<exists>p. c = Some p \<and> c' = Some p \<and> c'' = Some p)"
  by (cases c) auto

lemma first_line_line3:
  assumes "a < length sq" "b < length sq" "c < length sq"
  shows "first_line sq ([a, b, c] # rest) =
           (if line3 (sq ! a) (sq ! b) (sq ! c)
            then Some \<lparr>winner = Won (the (sq ! a)), line = Some [a, b, c]\<rparr>
            else first_line sq rest)"
  using assms by (cases "sq ! a") (auto simp: cell_at_nth line3_iff)

lemma line3_the: "line3 c c' c'' \<Longrightarrow> Some (the c) = c"
  by (cases c) simp_all

lemma sym_of_simps [simp]:
  "sym_of None = None"
  "sym_of (Some \<lparr>winner = Won p, line = l\<rparr>) = Some p"
  "sym_of (Some \<lparr>winner = Draw, line = l\<rparr>) = None"
  by (simp_all add: sym_of_def)

lemma sym_first_line: "triples_in sq cs \<Longrightarrow> sym_of (first_line sq cs) = first_sym sq cs"
proof (induction cs)
  case Nil
  show ?case by simp
next
  case (Cons combo rest)
  from Cons.prems obtain a b c where t: "combo = [a, b, c]" "a < length sq"
    "b < length sq" "c < length sq" and rest: "triples_in sq rest"
    by (auto simp: triples_in_def)
  show ?case
  proof (cases "line3 (sq ! a) (sq ! b) (sq ! c)")
    case True
    with first_line_line3 [OF t(2-4), of rest] line3_the [OF True] t(1) show ?thesis by simp
  next
    case False
    with first_line_line3 [OF t(2-4), of rest] Cons.IH [OF rest] t(1) show ?thesis by simp
  qed
qed

lemma fwinner_nine:
  "fwinner [c0, c1, c2, c3, c4, c5, c6, c7, c8] =
     (if line3 c0 c1 c2 then c0 else if line3 c3 c4 c5 then c3 else if line3 c6 c7 c8 then c6
      else if line3 c0 c3 c6 then c0 else if line3 c1 c4 c7 then c1 else if line3 c2 c5 c8 then c2
      else if line3 c0 c4 c8 then c0 else if line3 c2 c4 c6 then c2 else None)"
  by (simp add: fwinner_def WINNING_COMBINATIONS_def)

lemma fwinner_checkWinner: "length b = 9 \<Longrightarrow> fwinner b = sym_of (checkWinner b)"
proof -
  assume l: "length b = 9"
  note s = sym_first_line [OF triples_in_WINNING [OF l]]
  show ?thesis
  proof (cases "first_line b WINNING_COMBINATIONS")
    case None
    with s show ?thesis by (simp add: fwinner_def checkWinner_def)
  next
    case (Some r)
    with s show ?thesis by (simp add: fwinner_def checkWinner_def)
  qed
qed

lemma winner_is_sym: "winner_is r (Some p) \<longleftrightarrow> sym_of r = Some p"
  by (auto simp: winner_is_def sym_of_def split: option.splits outcome.splits)

lemma winner_is_fwinner: "length b = 9 \<Longrightarrow> winner_is (checkWinner b) (Some p) \<longleftrightarrow> fwinner b = Some p"
  by (simp add: winner_is_sym fwinner_checkWinner)

lemma no_winner_cases:
  assumes "length b = 9" and "fwinner b = None"
  shows "(None \<in> set b \<longrightarrow> checkWinner b = None) \<and> (None \<notin> set b \<longrightarrow> is_draw (checkWinner b))"
proof -
  have f: "first_line b WINNING_COMBINATIONS = None"
  proof (cases "first_line b WINNING_COMBINATIONS")
    case None
    then show ?thesis .
  next
    case (Some r)
    from first_line_winner [OF triples_in_WINNING [OF assms(1)] Some] obtain p where "winner r = Won p" ..
    with Some have "sym_of (first_line b WINNING_COMBINATIONS) = Some p" by (simp add: sym_of_def)
    with sym_first_line [OF triples_in_WINNING [OF assms(1)]] assms(2) show ?thesis
      by (simp add: fwinner_def)
  qed
  have "(\<forall>s \<in> set b. s \<noteq> None) \<longleftrightarrow> None \<notin> set b"
  proof
    assume "\<forall>s \<in> set b. s \<noteq> None"
    then show "None \<notin> set b" by blast
  next
    assume n: "None \<notin> set b"
    show "\<forall>s \<in> set b. s \<noteq> None"
    proof
      fix s assume s: "s \<in> set b"
      show "s \<noteq> None"
      proof
        assume "s = None"
        with s n show False by simp
      qed
    qed
  qed
  then have "list_all (\<lambda>s. s \<noteq> None) b \<longleftrightarrow> None \<notin> set b"
    by (simp only: list_all_iff)
  with f show ?thesis by (simp add: checkWinner_def is_draw_def del: not_None_eq)
qed

lemma rapp_rev: "rapp xs ys = rev xs @ ys"
  by (induction xs arbitrary: ys) simp_all

lemma ex_move_iff:
  "ex_move f p pre post \<longleftrightarrow>
     (\<exists>i < length post. post ! i = None \<and> f (rev pre @ post[i := Some p]))"
proof (induction f p pre post rule: ex_move.induct)
  case (1 f p pre)
  show ?case by simp
next
  case (2 f p pre post)
  have "(\<exists>i < length (None # post). (None # post) ! i = None \<and> f (rev pre @ (None # post)[i := Some p])) \<longleftrightarrow>
        f (rev pre @ Some p # post) \<or>
        (\<exists>i < length post. post ! i = None \<and> f (rev (None # pre) @ post[i := Some p]))"
    by (auto simp: less_Suc_eq_0_disj)
  with 2 show ?case by (auto simp: rapp_rev)
next
  case (3 f p pre q post)
  have "(\<exists>i < length (Some q # post). (Some q # post) ! i = None \<and> f (rev pre @ (Some q # post)[i := Some p])) \<longleftrightarrow>
        (\<exists>i < length post. post ! i = None \<and> f (rev (Some q # pre) @ post[i := Some p]))"
    by (auto simp: less_Suc_eq_0_disj)
  with 3 show ?case by simp
qed

lemma all_move_iff:
  "all_move f p pre post \<longleftrightarrow>
     (\<forall>i < length post. post ! i = None \<longrightarrow> f (rev pre @ post[i := Some p]))"
proof (induction f p pre post rule: all_move.induct)
  case (1 f p pre)
  show ?case by simp
next
  case (2 f p pre post)
  have "(\<forall>i < length (None # post). (None # post) ! i = None \<longrightarrow> f (rev pre @ (None # post)[i := Some p])) \<longleftrightarrow>
        f (rev pre @ Some p # post) \<and>
        (\<forall>i < length post. post ! i = None \<longrightarrow> f (rev (None # pre) @ post[i := Some p]))"
    by (auto simp: less_Suc_eq_0_disj)
  with 2 show ?case by (auto simp: rapp_rev)
next
  case (3 f p pre q post)
  have "(\<forall>i < length (Some q # post). (Some q # post) ! i = None \<longrightarrow> f (rev pre @ (Some q # post)[i := Some p])) \<longleftrightarrow>
        (\<forall>i < length post. post ! i = None \<longrightarrow> f (rev (Some q # pre) @ post[i := Some p]))"
    by (auto simp: less_Suc_eq_0_disj)
  with 3 show ?case by simp
qed

lemma ex_move_moves:
  "length b = 9 \<Longrightarrow> ex_move f p [] b \<longleftrightarrow> (\<exists>i \<in> set (moves b). f (b[i := Some p]))"
  by (auto simp: ex_move_iff moves_iff)

lemma all_move_moves:
  "length b = 9 \<Longrightarrow> all_move f p [] b \<longleftrightarrow> (\<forall>i \<in> set (moves b). f (b[i := Some p]))"
  by (auto simp: all_move_iff moves_iff)

lemma sign_won:
  assumes "length b = 9" and "fwinner b = Some p" and "d \<le> 9"
  shows "(0 < mmv b d m a \<longleftrightarrow> p = a) \<and> (0 \<le> mmv b d m a \<longleftrightarrow> p = a)"
proof (cases "p = a")
  case True
  with assms(1,2) have "winner_is (checkWinner b) (Some a)" by (simp add: winner_is_fwinner)
  then have "mmv b d m a = 10 - d" by (rule mmv_win)
  with assms(3) True show ?thesis by simp
next
  case False
  then have "p = opponent a" by (rule opponent_other)
  with assms(1,2) have "winner_is (checkWinner b) (Some (opponent a))" by (simp add: winner_is_fwinner)
  then have "mmv b d m a = d - 10" by (rule mmv_loss)
  with assms(3) False show ?thesis by simp
qed

lemma max_sign:
  fixes v :: "nat \<Rightarrow> int"
  assumes "j \<in> S" "v j = r" "\<forall>i \<in> S. v i \<le> r"
  shows "(\<exists>i \<in> S. 0 < v i) \<longleftrightarrow> 0 < r" and "(\<exists>i \<in> S. 0 \<le> v i) \<longleftrightarrow> 0 \<le> r"
proof -
  show "(\<exists>i \<in> S. 0 < v i) \<longleftrightarrow> 0 < r"
  proof
    assume "\<exists>i \<in> S. 0 < v i"
    then obtain i where "i \<in> S" "0 < v i" ..
    with assms(3) have "v i \<le> r" by blast
    with \<open>0 < v i\<close> show "0 < r" by simp
  next
    assume "0 < r"
    with assms(1,2) show "\<exists>i \<in> S. 0 < v i" by blast
  qed
  show "(\<exists>i \<in> S. 0 \<le> v i) \<longleftrightarrow> 0 \<le> r"
  proof
    assume "\<exists>i \<in> S. 0 \<le> v i"
    then obtain i where "i \<in> S" "0 \<le> v i" ..
    with assms(3) have "v i \<le> r" by blast
    with \<open>0 \<le> v i\<close> show "0 \<le> r" by simp
  next
    assume "0 \<le> r"
    with assms(1,2) show "\<exists>i \<in> S. 0 \<le> v i" by blast
  qed
qed

lemma min_sign:
  fixes v :: "nat \<Rightarrow> int"
  assumes "j \<in> S" "v j = r" "\<forall>i \<in> S. r \<le> v i"
  shows "(\<forall>i \<in> S. 0 < v i) \<longleftrightarrow> 0 < r" and "(\<forall>i \<in> S. 0 \<le> v i) \<longleftrightarrow> 0 \<le> r"
proof -
  show "(\<forall>i \<in> S. 0 < v i) \<longleftrightarrow> 0 < r"
  proof
    assume "\<forall>i \<in> S. 0 < v i"
    with assms(1,2) show "0 < r" by blast
  next
    assume r: "0 < r"
    show "\<forall>i \<in> S. 0 < v i"
    proof
      fix i assume "i \<in> S"
      with assms(3) have "r \<le> v i" by blast
      with r show "0 < v i" by simp
    qed
  qed
  show "(\<forall>i \<in> S. 0 \<le> v i) \<longleftrightarrow> 0 \<le> r"
  proof
    assume "\<forall>i \<in> S. 0 \<le> v i"
    with assms(1,2) show "0 \<le> r" by blast
  next
    assume r: "0 \<le> r"
    show "\<forall>i \<in> S. 0 \<le> v i"
    proof
      fix i assume "i \<in> S"
      with assms(3) have "r \<le> v i" by blast
      with r show "0 \<le> v i" by simp
    qed
  qed
qed

lemma length_update_nine: "length b = 9 \<Longrightarrow> length (b[i := v]) = 9"
  by simp

lemma empties_move:
  "length b = 9 \<Longrightarrow> i \<in> set (moves b) \<Longrightarrow> empties b = Suc n \<Longrightarrow> empties (b[i := Some p]) = n"
  using empties_update [of i b p] by (simp add: moves_iff)

lemma sign_ok_sound:
  "length b = 9 \<Longrightarrow> empties b = n \<Longrightarrow> d + int n \<le> 9 \<Longrightarrow>
   sign_ok n strict a m b \<longleftrightarrow> (if strict then 0 < mmv b d m a else 0 \<le> mmv b d m a)"
proof (induction n arbitrary: b d m)
  case 0
  from 0 have d: "d \<le> 9" by simp
  show ?case
  proof (cases "fwinner b")
    case None
    from 0 have "None \<notin> set b" by (simp add: empties_zero)
    with no_winner_cases [OF "0.prems"(1) None] have "is_draw (checkWinner b)" by simp
    then have "mmv b d m a = 0" by (rule mmv_draw)
    with None show ?thesis by simp
  next
    case (Some p)
    with sign_won [OF "0.prems"(1) Some d, where a = a and m = m] show ?thesis by simp
  qed
next
  case (Suc n)
  from Suc.prems have d: "d \<le> 9" and d1: "(d + 1) + int n \<le> 9" by simp_all
  note len = Suc.prems(1)
  show ?case
  proof (cases "fwinner b")
    case (Some p)
    with sign_won [OF len Some d, where a = a and m = m] show ?thesis by simp
  next
    case None
    from Suc.prems(2) have "empties b \<noteq> 0" by simp
    then have "None \<in> set b" by (simp add: empties_zero)
    with no_winner_cases [OF len None] have o: "checkWinner b = None" by simp
    have ih: "sign_ok n strict a m' (b[i := Some p]) \<longleftrightarrow>
        (if strict then 0 < mmv (b[i := Some p]) (d + 1) m' a else 0 \<le> mmv (b[i := Some p]) (d + 1) m' a)"
      if "i \<in> set (moves b)" for i p m'
      using Suc.IH [OF length_update_nine [OF len] empties_move [OF len that Suc.prems(2)] d1] .
    show ?thesis
    proof (cases m)
      case True
      from mmv_max [OF len o, of a d] obtain j where j: "j \<in> set (moves b)"
        "mmv (b[j := Some a]) (d + 1) False a = mmv b d True a"
        and le: "\<forall>i \<in> set (moves b). mmv (b[i := Some a]) (d + 1) False a \<le> mmv b d True a"
        by blast
      have "sign_ok (Suc n) strict a m b \<longleftrightarrow>
            (\<exists>i \<in> set (moves b). sign_ok n strict a False (b[i := Some a]))"
        using None True by (simp add: ex_move_moves [OF len])
      also have "\<dots> \<longleftrightarrow> (\<exists>i \<in> set (moves b).
            if strict then 0 < mmv (b[i := Some a]) (d + 1) False a
            else 0 \<le> mmv (b[i := Some a]) (d + 1) False a)"
        using ih by blast
      also have "\<dots> \<longleftrightarrow> (if strict then 0 < mmv b d True a else 0 \<le> mmv b d True a)"
        using max_sign [OF j le] by (cases strict) simp_all
      finally show ?thesis using True by simp
    next
      case False
      from mmv_min [OF len o, of a d] obtain j where j: "j \<in> set (moves b)"
        "mmv (b[j := Some (opponent a)]) (d + 1) True a = mmv b d False a"
        and le: "\<forall>i \<in> set (moves b). mmv b d False a \<le> mmv (b[i := Some (opponent a)]) (d + 1) True a"
        by blast
      have "sign_ok (Suc n) strict a m b \<longleftrightarrow>
            (\<forall>i \<in> set (moves b). sign_ok n strict a True (b[i := Some (opponent a)]))"
        using None False by (simp add: all_move_moves [OF len])
      also have "\<dots> \<longleftrightarrow> (\<forall>i \<in> set (moves b).
            if strict then 0 < mmv (b[i := Some (opponent a)]) (d + 1) True a
            else 0 \<le> mmv (b[i := Some (opponent a)]) (d + 1) True a)"
        using ih by blast
      also have "\<dots> \<longleftrightarrow> (if strict then 0 < mmv b d False a else 0 \<le> mmv b d False a)"
        using min_sign [OF j le] by (cases strict) simp_all
      finally show ?thesis using False by simp
    qed
  qed
qed

lemma first_safe_split:
  "first_safe n a b js = Some i \<Longrightarrow>
   \<exists>pre post. js = pre @ i # post \<and>
     (\<forall>j \<in> set pre. \<not> sign_ok n False a False (b[j := Some a])) \<and>
     sign_ok n False a False (b[i := Some a]) \<and>
     (\<forall>j \<in> set post. \<not> sign_ok n True a False (b[j := Some a]))"
proof (induction js)
  case Nil
  then show ?case by simp
next
  case (Cons k js)
  show ?case
  proof (cases "sign_ok n False a False (b[k := Some a])")
    case True
    with Cons.prems have "i = k" and "\<forall>j \<in> set js. \<not> sign_ok n True a False (b[j := Some a])"
      by (simp_all add: list_all_iff split: if_splits)
    with True have "k # js = [] @ i # js \<and>
     (\<forall>j \<in> set []. \<not> sign_ok n False a False (b[j := Some a])) \<and>
     sign_ok n False a False (b[i := Some a]) \<and>
     (\<forall>j \<in> set js. \<not> sign_ok n True a False (b[j := Some a]))" by simp
    then show ?thesis by blast
  next
    case False
    with Cons.prems have "first_safe n a b js = Some i" by simp
    from Cons.IH [OF this] obtain pre post where p: "js = pre @ i # post"
      "\<forall>j \<in> set pre. \<not> sign_ok n False a False (b[j := Some a])"
      "sign_ok n False a False (b[i := Some a])"
      "\<forall>j \<in> set post. \<not> sign_ok n True a False (b[j := Some a])" by blast
    with False have "k # js = (k # pre) @ i # post \<and>
     (\<forall>j \<in> set (k # pre). \<not> sign_ok n False a False (b[j := Some a])) \<and>
     sign_ok n False a False (b[i := Some a]) \<and>
     (\<forall>j \<in> set post. \<not> sign_ok n True a False (b[j := Some a]))" by simp
    then show ?thesis by blast
  qed
qed

lemma empties_le: "empties b \<le> length b"
  by (simp add: empties_def)

lemma first_safe_sound:
  assumes len: "length b = 9" and e: "empties b = Suc n"
    and f: "first_safe n a b (moves b) = Some i"
  shows "getBestMove b (Some a) = int i"
proof -
  from first_safe_split [OF f] obtain pre post where p: "moves b = pre @ i # post"
      "\<forall>j \<in> set pre. \<not> sign_ok n False a False (b[j := Some a])"
      "sign_ok n False a False (b[i := Some a])"
      "\<forall>j \<in> set post. \<not> sign_ok n True a False (b[j := Some a])" by blast
  from e empties_le [of b] len have n: "0 + int n \<le> 9" by simp
  have s: "sign_ok n strict a False (b[j := Some a]) \<longleftrightarrow>
      (if strict then 0 < mmv (b[j := Some a]) 0 False a else 0 \<le> mmv (b[j := Some a]) 0 False a)"
    if "j \<in> set (moves b)" for j strict
    using sign_ok_sound [OF length_update_nine [OF len] empties_move [OF len that e] n] .
  from p(1) have mem: "i \<in> set (moves b)" "set pre \<subseteq> set (moves b)" "set post \<subseteq> set (moves b)"
    by auto
  from p(3) s [OF mem(1), of False] have i0: "0 \<le> mmv (b[i := Some a]) 0 False a" by simp
  have pre: "\<forall>j \<in> set pre. mmv (b[j := Some a]) 0 False a < mmv (b[i := Some a]) 0 False a"
  proof
    fix j assume j: "j \<in> set pre"
    with mem(2) have "j \<in> set (moves b)" by blast
    from s [OF this, of False] p(2) j have "mmv (b[j := Some a]) 0 False a < 0" by simp
    with i0 show "mmv (b[j := Some a]) 0 False a < mmv (b[i := Some a]) 0 False a" by simp
  qed
  have post: "\<forall>j \<in> set post. mmv (b[j := Some a]) 0 False a \<le> mmv (b[i := Some a]) 0 False a"
  proof
    fix j assume j: "j \<in> set post"
    with mem(3) have "j \<in> set (moves b)" by blast
    from s [OF this, of True] p(4) j have "mmv (b[j := Some a]) 0 False a \<le> 0" by simp
    with i0 show "mmv (b[j := Some a]) 0 False a \<le> mmv (b[i := Some a]) 0 False a" by simp
  qed
  from len p(1) pre post show ?thesis by (rule getBestMove_first)
qed

lemma sign_depth:
  assumes "length b = 9" and "d + int (empties b) \<le> 9" and "d' + int (empties b) \<le> 9"
  shows "0 \<le> mmv b d m a \<longleftrightarrow> 0 \<le> mmv b d' m a"
  using sign_ok_sound [OF assms(1) refl assms(2), of False a m]
        sign_ok_sound [OF assms(1) refl assms(3), of False a m]
  by simp

lemma sign_depth_move:
  assumes "length b = 9" and "i \<in> set (moves b)"
  shows "0 \<le> mmv (b[i := Some p]) 1 m a \<longleftrightarrow> 0 \<le> mmv (b[i := Some p]) 0 m a"
proof -
  from assms have "i < length b" "b ! i = None" by (simp_all add: moves_iff)
  from empties_update [OF this, of p] empties_le [of b] assms(1)
  have "empties (b[i := Some p]) \<le> 8" by simp
  then have "1 + int (empties (b[i := Some p])) \<le> 9" "0 + int (empties (b[i := Some p])) \<le> 9"
    by simp_all
  from sign_depth [OF length_update_nine [OF assms(1)] this] show ?thesis .
qed

lemma empties_replicate: "empties (replicate 9 None) = 9"
  by (simp add: empties_def)

lemma start_PX: "sign_ok 9 False PX True (replicate 9 None)"
  by (simp add: eval_nat_numeral fwinner_nine)

lemma start_PO: "sign_ok 9 False PO False (replicate 9 None)"
  by (simp add: eval_nat_numeral fwinner_nine)

lemma start_safe: "0 \<le> mmv (replicate 9 None) 0 (PX = a) a"
proof (cases a)
  case PX
  from sign_ok_sound [of "replicate 9 None" 9 0 False PX True] start_PX empties_replicate
  show ?thesis by (simp add: PX)
next
  case PO
  from sign_ok_sound [of "replicate 9 None" 9 0 False PO False] start_PO empties_replicate
  show ?thesis by (simp add: PO)
qed

lemma ai_game_inv: "ai_game a b t \<Longrightarrow> length b = 9 \<and> 0 \<le> mmv b 0 (t = a) a"
proof (induction rule: ai_game.induct)
  case start
  from start_safe show ?case by simp
next
  case (ai_move b i)
  then have len: "length b = 9" and v: "0 \<le> mmv b 0 True a" by simp_all
  note o = \<open>checkWinner b = None\<close>
  from mmv_max [OF len o, of a 0] v obtain j where j: "j \<in> set (moves b)"
    "0 \<le> mmv (b[j := Some a]) 1 False a" by auto
  from j(2) sign_depth_move [OF len j(1)] have j0: "0 \<le> mmv (b[j := Some a]) 0 False a" by simp
  from getBestMove_max [OF len open_game_moves [OF len o], of a] obtain i' where
    i': "i' \<in> set (moves b)" "getBestMove b (Some a) = int i'"
    "\<forall>k \<in> set (moves b). mmv (b[k := Some a]) 0 False a \<le> mmv (b[i' := Some a]) 0 False a" by blast
  from i'(2) \<open>getBestMove b (Some a) = int i\<close> have "i' = i" by simp
  with i'(3) j(1) j0 have "0 \<le> mmv (b[i := Some a]) 0 False a" by force
  with len show ?case by (simp add: opponent_neq)
next
  case (user_move b i)
  then have len: "length b = 9" and v: "0 \<le> mmv b 0 False a" by (simp_all add: opponent_neq)
  note o = \<open>checkWinner b = None\<close>
  from user_move.hyps len have i: "i \<in> set (moves b)" by (simp add: moves_iff)
  from mmv_min [OF len o, of a 0] i v have "0 \<le> mmv (b[i := Some (opponent a)]) 1 True a" by force
  with sign_depth_move [OF len i] have "0 \<le> mmv (b[i := Some (opponent a)]) 0 True a" by simp
  with len show ?case by simp
qed

lemma ai_never_beaten:
  assumes "ai_game a b t"
  shows "\<not> winner_is (checkWinner b) (Some (opponent a))"
proof
  assume "winner_is (checkWinner b) (Some (opponent a))"
  then have "mmv b 0 (t = a) a = 0 - 10" by (rule mmv_loss)
  with ai_game_inv [OF assms] show False by simp
qed

lemma best_0:
  "getBestMove [None, None, None, None, None, None, None, None, None] (Some PX) = 0"
proof -
  have "getBestMove [None, None, None, None, None, None, None, None, None] (Some PX) = int 0"
  proof (rule first_safe_sound [where n = 8])
    show "length [None, None, None, None, None, None, None, None, None] = 9" by simp
    show "empties [None, None, None, None, None, None, None, None, None] = Suc 8" by (simp add: empties_def)
    show "first_safe 8 PX [None, None, None, None, None, None, None, None, None] (moves [None, None, None, None, None, None, None, None, None]) = Some 0"
      by (simp add: moves_def cell_at_def upt9 eval_nat_numeral fwinner_nine)
  qed
  then show ?thesis by simp
qed

lemma open_0: "checkWinner [None, None, None, None, None, None, None, None, None] = None"
  using no_winner_cases [of "[None, None, None, None, None, None, None, None, None]"] by (simp add: fwinner_nine)

lemma play_0:
  "self_play (Suc n) [None, None, None, None, None, None, None, None, None] PX =
   self_play n [Some PX, None, None, None, None, None, None, None, None] PO"
  by (simp add: open_0 best_0)

lemma best_1:
  "getBestMove [Some PX, None, None, None, None, None, None, None, None] (Some PO) = 4"
proof -
  have "getBestMove [Some PX, None, None, None, None, None, None, None, None] (Some PO) = int 4"
  proof (rule first_safe_sound [where n = 7])
    show "length [Some PX, None, None, None, None, None, None, None, None] = 9" by simp
    show "empties [Some PX, None, None, None, None, None, None, None, None] = Suc 7" by (simp add: empties_def)
    show "first_safe 7 PO [Some PX, None, None, None, None, None, None, None, None] (moves [Some PX, None, None, None, None, None, None, None, None]) = Some 4"
      by (simp add: moves_def cell_at_def upt9 eval_nat_numeral fwinner_nine)
  qed
  then show ?thesis by simp
qed

lemma open_1: "checkWinner [Some PX, None, None, None, None, None, None, None, None] = None"
  using no_winner_cases [of "[Some PX, None, None, None, None, None, None, None, None]"] by (simp add: fwinner_nine)

lemma play_1:
  "self_play (Suc n) [Some PX, None, None, None, None, None, None, None, None] PO =
   self_play n [Some PX, None, None, None, Some PO, None, None, None, None] PX"
  by (simp add: open_1 best_1)

lemma best_2:
  "getBestMove [Some PX, None, None, None, Some PO, None, None, None, None] (Some PX) = 1"
proof -
  have "getBestMove [Some PX, None, None, None, Some PO, None, None, None, None] (Some PX) = int 1"
  proof (rule first_safe_sound [where n = 6])
    show "length [Some PX, None, None, None, Some PO, None, None, None, None] = 9" by simp
    show "empties [Some PX, None, None, None, Some PO, None, None, None, None] = Suc 6" by (simp add: empties_def)
    show "first_safe 6 PX [Some PX, None, None, None, Some PO, None, None, None, None] (moves [Some PX, None, None, None, Some PO, None, None, None, None]) = Some 1"
      by (simp add: moves_def cell_at_def upt9 eval_nat_numeral fwinner_nine)
  qed
  then show ?thesis by simp
qed

lemma open_2: "checkWinner [Some PX, None, None, None, Some PO, None, None, None, None] = None"
  using no_winner_cases [of "[Some PX, None, None, None, Some PO, None, None, None, None]"] by (simp add: fwinner_nine)

lemma play_2:
  "self_play (Suc n) [Some PX, None, None, None, Some PO, None, None, None, None] PX =
   self_play n [Some PX, Some PX, None, None, Some PO, None, None, None, None] PO"
  by (simp add: open_2 best_2)

lemma best_3:
  "getBestMove [Some PX, Some PX, None, None, Some PO, None, None, None, None] (Some PO) = 2"
proof -
  have "getBestMove [Some PX, Some PX, None, None, Some PO, None, None, None, None] (Some PO) = int 2"
  proof (rule first_safe_sound [where n = 5])
    show "length [Some PX, Some PX, None, None, Some PO, None, None, None, None] = 9" by simp
    show "empties [Some PX, Some PX, None, None, Some PO, None, None, None, None] = Suc 5" by (simp add: empties_def)
    show "first_safe 5 PO [Some PX, Some PX, None, None, Some PO, None, None, None, None] (moves [Some PX, Some PX, None, None, Some PO, None, None, None, None]) = Some 2"
      by (simp add: moves_def cell_at_def upt9 eval_nat_numeral fwinner_nine)
  qed
  then show ?thesis by simp
qed

lemma open_3: "checkWinner [Some PX, Some PX, None, None, Some PO, None, None, None, None] = None"
  using no_winner_cases [of "[Some PX, Some PX, None, None, Some PO, None, None, None, None]"] by (simp add: fwinner_nine)

lemma play_3:
  "self_play (Suc n) [Some PX, Some PX, None, None, Some PO, None, None, None, None] PO =
   self_play n [Some PX, Some PX, Some PO, None, Some PO, None, None, None, None] PX"
  by (simp add: open_3 best_3)

lemma best_4:
  "getBestMove [Some PX, Some PX, Some PO, None, Some PO, None, None, None, None] (Some PX) = 6"
proof -
  have "getBestMove [Some PX, Some PX, Some PO, None, Some PO, None, None, None, None] (Some PX) = int 6"
  proof (rule first_safe_sound [where n = 4])
    show "length [Some PX, Some PX, Some PO, None, Some PO, None, None, None, None] = 9" by simp
    show "empties [Some PX, Some PX, Some PO, None, Some PO, None, None, None, None] = Suc 4" by (simp add: empties_def)
    show "first_safe 4 PX [Some PX, Some PX, Some PO, None, Some PO, None, None, None, None] (moves [Some PX, Some PX, Some PO, None, Some PO, None, None, None, None]) = Some 6"
      by (simp add: moves_def cell_at_def upt9 eval_nat_numeral fwinner_nine)
  qed
  then show ?thesis by simp
qed

lemma open_4: "checkWinner [Some PX, Some PX, Some PO, None, Some PO, None, None, None, None] = None"
  using no_winner_cases [of "[Some PX, Some PX, Some PO, None, Some PO, None, None, None, None]"] by (simp add: fwinner_nine)

lemma play_4:
  "self_play (Suc n) [Some PX, Some PX, Some PO, None, Some PO, None, None, None, None] PX =
   self_play n [Some PX, Some PX, Some PO, None, Some PO, None, Some PX, None, None] PO"
  by (simp add: open_4 best_4)

lemma best_5:
  "getBestMove [Some PX, Some PX, Some PO, None, Some PO, None, Some PX, None, None] (Some PO) = 3"
proof -
  have "getBestMove [Some PX, Some PX, Some PO, None, Some PO, None, Some PX, None, None] (Some PO) = int 3"
  proof (rule first_safe_sound [where n = 3])
    show "length [Some PX, Some PX, Some PO, None, Some PO, None, Some PX, None, None] = 9" by simp
    show "empties [Some PX, Some PX, Some PO, None, Some PO, None, Some PX, None, None] = Suc 3" by (simp add: empties_def)
    show "first_safe 3 PO [Some PX, Some PX, Some PO, None, Some PO, None, Some PX, None, None] (moves [Some PX, Some PX, Some PO, None, Some PO, None, Some PX, None, None]) = Some 3"
      by (simp add: moves_def cell_at_def upt9 eval_nat_numeral fwinner_nine)
  qed
  then show ?thesis by simp
qed

lemma open_5: "checkWinner [Some PX, Some PX, Some PO, None, Some PO, None, Some PX, None, None] = None"
  using no_winner_cases [of "[Some PX, Some PX, Some PO, None, Some PO, None, Some PX, None, None]"] by (simp add: fwinner_nine)

lemma play_5:
  "self_play (Suc n) [Some PX, Some PX, Some PO, None, Some PO, None, Some PX, None, None] PO =
   self_play n [Some PX, Some PX, Some PO, Some PO, Some PO, None, Some PX, None, None] PX"
  by (simp add: open_5 best_5)

lemma best_6:
  "getBestMove [Some PX, Some PX, Some PO, Some PO, Some PO, None, Some PX, None, None] (Some PX) = 5"
proof -
  have "getBestMove [Some PX, Some PX, Some PO, Some PO, Some PO, None, Some PX, None, None] (Some PX) = int 5"
  proof (rule first_safe_sound [where n = 2])
    show "length [Some PX, Some PX, Some PO, Some PO, Some PO, None, Some PX, None, None] = 9" by simp
    show "empties [Some PX, Some PX, Some PO, Some PO, Some PO, None, Some PX, None, None] = Suc 2" by (simp add: empties_def)
    show "first_safe 2 PX [Some PX, Some PX, Some PO, Some PO, Some PO, None, Some PX, None, None] (moves [Some PX, Some PX, Some PO, Some PO, Some PO, None, Some PX, None, None]) = Some 5"
      by (simp add: moves_def cell_at_def upt9 eval_nat_numeral fwinner_nine)
  qed
  then show ?thesis by simp
qed

lemma open_6: "checkWinner [Some PX, Some PX, Some PO, Some PO, Some PO, None, Some PX, None, None] = None"
  using no_winner_cases [of "[Some PX, Some PX, Some PO, Some PO, Some PO, None, Some PX, None, None]"] by (simp add: fwinner_nine)

lemma play_6:
  "self_play (Suc n) [Some PX, Some PX, Some PO, Some PO, Some PO, None, Some PX, None, None] PX =
   self_play n [Some PX, Some PX, Some PO, Some PO, Some PO, Some PX, Some PX, None, None] PO"
  by (simp add: open_6 best_6)

lemma best_7:
  "getBestMove [Some PX, Some PX, Some PO, Some PO, Some PO, Some PX, Some PX, None, None] (Some PO) = 7"
proof -
  have "getBestMove [Some PX, Some PX, Some PO, Some PO, Some PO, Some PX, Some PX, None, None] (Some PO) = int 7"
  proof (rule first_safe_sound [where n = 1])
    show "length [Some PX, Some PX, Some PO, Some PO, Some PO, Some PX, Some PX, None, None] = 9" by simp
    show "empties [Some PX, Some PX, Some PO, Some PO, Some PO, Some PX, Some PX, None, None] = Suc 1" by (simp add: empties_def)
    show "first_safe 1 PO [Some PX, Some PX, Some PO, Some PO, Some PO, Some PX, Some PX, None, None] (moves [Some PX, Some PX, Some PO, Some PO, Some PO, Some PX, Some PX, None, None]) = Some 7"
      by (simp add: moves_def cell_at_def upt9 eval_nat_numeral fwinner_nine)
  qed
  then show ?thesis by simp
qed

lemma open_7: "checkWinner [Some PX, Some PX, Some PO, Some PO, Some PO, Some PX, Some PX, None, None] = None"
  using no_winner_cases [of "[Some PX, Some PX, Some PO, Some PO, Some PO, Some PX, Some PX, None, None]"] by (simp add: fwinner_nine)

lemma play_7:
  "self_play (Suc n) [Some PX, Some PX, Some PO, Some PO, Some PO, Some PX, Some PX, None, None] PO =
   self_play n [Some PX, Some PX, Some PO, Some PO, Some PO, Some PX, Some PX, Some PO, None] PX"
  by (simp add: open_7 best_7)

lemma best_8:
  "getBestMove [Some PX, Some PX, Some PO, Some PO, Some PO, Some PX, Some PX, Some PO, None] (Some PX) = 8"
proof -
  have "getBestMove [Some PX, Some PX, Some PO, Some PO, Some PO, Some PX, Some PX, Some PO, None] (Some PX) = int 8"
  proof (rule first_safe_sound [where n = 0])
    show "length [Some PX, Some PX, Some PO, Some PO, Some PO, Some PX, Some PX, Some PO, None] = 9" by simp
    show "empties [Some PX, Some PX, Some PO, Some PO, Some PO, Some PX, Some PX, Some PO, None] = Suc 0" by (simp add: empties_def)
    show "first_safe 0 PX [Some PX, Some PX, Some PO, Some PO, Some PO, Some PX, Some PX, Some PO, None] (moves [Some PX, Some PX, Some PO, Some PO, Some PO, Some PX, Some PX, Some PO, None]) = Some 8"
      by (simp add: moves_def cell_at_def upt9 eval_nat_numeral fwinner_nine)
  qed
  then show ?thesis by simp
qed

lemma open_8: "checkWinner [Some PX, Some PX, Some PO, Some PO, Some PO, Some PX, Some PX, Some PO, None] = None"
  using no_winner_cases [of "[Some PX, Some PX, Some PO, Some PO, Some PO, Some PX, Some PX, Some PO, None]"] by (simp add: fwinner_nine)

lemma play_8:
  "self_play (Suc n) [Some PX, Some PX, Some PO, Some PO, Some PO, Some PX, Some PX, Some PO, None] PX =
   self_play n [Some PX, Some PX, Some PO, Some PO, Some PO, Some PX, Some PX, Some PO, Some PX] PO"
  by (simp add: open_8 best_8)

lemma play_end:
  "self_play (Suc n) [Some PX, Some PX, Some PO, Some PO, Some PO, Some PX, Some PX, Some PO, Some PX] PO = Some Draw"
proof -
  from no_winner_cases [of "[Some PX, Some PX, Some PO, Some PO, Some PO, Some PX, Some PX, Some PO, Some PX]"]
  have "is_draw (checkWinner [Some PX, Some PX, Some PO, Some PO, Some PO, Some PX, Some PX, Some PO, Some PX])" by (simp add: fwinner_nine)
  then obtain r where "checkWinner [Some PX, Some PX, Some PO, Some PO, Some PO, Some PX, Some PX, Some PO, Some PX] = Some r" "winner r = Draw"
    by (auto simp: is_draw_def split: option.splits)
  then show ?thesis by simp
qed

lemma self_play_draw: "self_play (10 + k) (replicate 9 None) PX = Some Draw"
proof -
  have e: "replicate 9 None = [None, None, None, None, None, None, None, None, None]" by (simp add: eval_nat_numeral)
  have f: "10 + k = Suc (Suc (Suc (Suc (Suc (Suc (Suc (Suc (Suc (Suc k)))))))))" by simp
  show ?thesis
    unfolding e f
    by (simp only: play_0 play_1 play_2 play_3 play_4 play_5 play_6 play_7 play_8 play_end
          opponent.simps)
qed

section \<open>The claims about the relay protocol\<close>

text \<open>
C1. A \<^verbatim>\<open>make_move\<close> is accepted exactly when the room exists, the target cell holds
  \<open>null\<close> and the room's turn equals the claimed symbol; the sending connection plays no
  part. An accepted move writes the symbol into the cell, flips the turn marker and broadcasts
  the new board and turn to the room; a rejected one emits nothing and leaves the state as it
  was.
\<close>

theorem make_move_accepted_iff:
  "make_move st sock' rc i s = make_move st sock rc i s \<and>
   ((\<exists>room. rooms st rc = Some room \<and> cell_at (board room) i = Some None \<and> turn room = s) \<longrightarrow>
      (\<exists>room. rooms st rc = Some room \<and> 0 \<le> i \<and> nat i < length (board room) \<and>
         make_move st sock rc i s =
           (st\<lparr>rooms := (rooms st)(rc \<mapsto>
                  room\<lparr>board := (board room)[nat i := s],
                       turn := (if turn room = Some PX then Some PO else Some PX)\<rparr>)\<rparr>,
            [To_room rc (move_made ((board room)[nat i := s])
                                   (if turn room = Some PX then Some PO else Some PX))]))) \<and>
   (\<not> (\<exists>room. rooms st rc = Some room \<and> cell_at (board room) i = Some None \<and> turn room = s) \<longrightarrow>
      make_move st sock rc i s = (st, []))"
proof (intro conjI impI)
  show "make_move st sock' rc i s = make_move st sock rc i s"
    by (rule make_move_sender)
next
  assume "\<exists>room. rooms st rc = Some room \<and> cell_at (board room) i = Some None \<and> turn room = s"
  then obtain room where r: "rooms st rc = Some room" "cell_at (board room) i = Some None"
    "turn room = s" by blast
  from r(2) have "0 \<le> i \<and> nat i < length (board room)" by (blast dest: cell_at_Some)
  with r make_move_accepted [OF r] show "\<exists>room. rooms st rc = Some room \<and> 0 \<le> i \<and> nat i < length (board room) \<and>
         make_move st sock rc i s =
           (st\<lparr>rooms := (rooms st)(rc \<mapsto>
                  room\<lparr>board := (board room)[nat i := s],
                       turn := (if turn room = Some PX then Some PO else Some PX)\<rparr>)\<rparr>,
            [To_room rc (move_made ((board room)[nat i := s])
                                   (if turn room = Some PX then Some PO else Some PX))])"
    by simp
next
  assume n: "\<not> (\<exists>room. rooms st rc = Some room \<and> cell_at (board room) i = Some None \<and> turn room = s)"
  show "make_move st sock rc i s = (st, [])"
  proof (cases "rooms st rc")
    case None
    then show ?thesis by (rule make_move_unknown)
  next
    case (Some room)
    with n show ?thesis by (simp add: make_move_rejected)
  qed
qed

theorem make_move_accepted_iff_witness:
  "snd (make_move st_one ''s2'' ''A'' 4 (Some PX)) =
     [To_room ''A'' (move_made [None, None, None, None, Some PX, None, None, None, None] (Some PO))] \<and>
   make_move st_one ''s2'' ''A'' 4 (Some PO) = (st_one, [])"
proof -
  have a: "\<exists>room. rooms st_one ''A'' = Some room \<and> cell_at (board room) 4 = Some None \<and> turn room = Some PX"
    by (simp add: st_one_room st_one_cell)
  have b: "\<not> (\<exists>room. rooms st_one ''A'' = Some room \<and> cell_at (board room) 4 = Some None \<and> turn room = Some PO)"
    by (simp add: st_one_room)
  from a make_move_accepted_iff [of st_one "''s2''" "''A''" 4 "Some PX" "''s2''"]
  obtain room where r: "rooms st_one ''A'' = Some room"
    "make_move st_one ''s2'' ''A'' 4 (Some PX) =
           (st_one\<lparr>rooms := (rooms st_one)(''A'' \<mapsto>
                  room\<lparr>board := (board room)[nat 4 := Some PX],
                       turn := (if turn room = Some PX then Some PO else Some PX)\<rparr>)\<rparr>,
            [To_room ''A'' (move_made ((board room)[nat 4 := Some PX])
                                   (if turn room = Some PX then Some PO else Some PX))])"
    by blast
  from r(1) have "room = \<lparr>players = [''s1''], board = replicate 9 None, turn = Some PX\<rparr>"
    by (simp add: st_one_room)
  with r(2) have 1: "snd (make_move st_one ''s2'' ''A'' 4 (Some PX)) =
     [To_room ''A'' (move_made [None, None, None, None, Some PX, None, None, None, None] (Some PO))]"
    by (simp add: replicate9 eval_nat_numeral)
  from b make_move_accepted_iff [of st_one "''s2''" "''A''" 4 "Some PO" "''s2''"]
  have 2: "make_move st_one ''s2'' ''A'' 4 (Some PO) = (st_one, [])" by blast
  from 1 2 show ?thesis by simp
qed


text \<open>
C2, as amended. For a fresh room code the first \<^verbatim>\<open>join_room\<close> creates the room with
  the joiner as sole participant, an all-empty board and turn X, and emits only the assignment
  X to the joiner. The next \<^verbatim>\<open>join_room\<close> to that code appends the joiner, emits the
  assignment O to it and broadcasts \<^verbatim>\<open>game_ready\<close> with the room's current board and turn
  to the room's group. The group holds the second joiner, and the first one too unless it has
  disconnected in between. The board is all-empty and the turn X when no \<^verbatim>\<open>make_move\<close>
  for that room came in between.
\<close>

theorem first_and_second_join:
  assumes "rooms st rc = None"
    and "\<forall>m \<in> set ms. snd m \<noteq> Join_room rc"
  shows "join_room st s1 rc =
           (st\<lparr>members := (members st)(rc := insert s1 (members st rc)),
               rooms := (rooms st)(rc \<mapsto> \<lparr>players = [s1], board = replicate 9 None, turn = Some PX\<rparr>)\<rparr>,
            [To_socket s1 (player_assignment PX)]) \<and>
         (\<exists>room. rooms (fst (run (fst (join_room st s1 rc)) ms)) rc = Some room \<and>
            players room = [s1] \<and>
            snd (join_room (fst (run (fst (join_room st s1 rc)) ms)) s2 rc) =
              [To_socket s2 (player_assignment PO), To_room rc (game_ready (board room) (turn room))] \<and>
            rooms (fst (join_room (fst (run (fst (join_room st s1 rc)) ms)) s2 rc)) rc =
              Some (room\<lparr>players := [s1, s2]\<rparr>) \<and>
            s2 \<in> recipients (fst (join_room (fst (run (fst (join_room st s1 rc)) ms)) s2 rc))
                          (To_room rc (game_ready (board room) (turn room))) \<and>
            ((s1, Disconnect) \<notin> set ms \<longrightarrow>
               s1 \<in> recipients (fst (join_room (fst (run (fst (join_room st s1 rc)) ms)) s2 rc))
                          (To_room rc (game_ready (board room) (turn room)))) \<and>
            ((\<forall>m \<in> set ms. \<forall>i s. snd m \<noteq> Make_move rc i s) \<longrightarrow>
               board room = replicate 9 None \<and> turn room = Some PX))"
proof -
  let ?st1 = "fst (join_room st s1 rc)"
  let ?st2 = "fst (run ?st1 ms)"
  have j1: "join_room st s1 rc =
           (st\<lparr>members := (members st)(rc := insert s1 (members st rc)),
               rooms := (rooms st)(rc \<mapsto> \<lparr>players = [s1], board = replicate 9 None, turn = Some PX\<rparr>)\<rparr>,
            [To_socket s1 (player_assignment PX)])"
    using assms(1) by (rule join_room_fresh)
  then have r1: "rooms ?st1 rc = Some \<lparr>players = [s1], board = replicate 9 None, turn = Some PX\<rparr>"
    and m1: "s1 \<in> members ?st1 rc" by simp_all
  from assms(2) have nj: "(\<forall>m \<in> set ms. snd m \<noteq> Join_room rc) \<or>
      \<not> length (players \<lparr>players = [s1], board = replicate 9 None, turn = Some PX\<rparr>) < 2"
    by simp
  from run_players [OF r1 nj] obtain room where
    room: "rooms ?st2 rc = Some room" "players room = [s1]" by auto
  from room(2) have lt: "length (players room) < 2" by simp
  note j2 = join_room_second [OF room(1) lt, of s2]
  have u: "board room = replicate 9 None \<and> turn room = Some PX"
    if "\<forall>m \<in> set ms. \<forall>i s. snd m \<noteq> Make_move rc i s"
    using run_untouched [OF r1 _ _ that] room(1) by simp
  have d: "s1 \<in> recipients (fst (join_room ?st2 s2 rc))
                  (To_room rc (game_ready (board room) (turn room)))"
    if "(s1, Disconnect) \<notin> set ms"
    using run_members [OF that m1] by (simp add: j2)
  have "snd (join_room ?st2 s2 rc) =
              [To_socket s2 (player_assignment PO), To_room rc (game_ready (board room) (turn room))]"
    by (simp add: j2)
  moreover have "rooms (fst (join_room ?st2 s2 rc)) rc = Some (room\<lparr>players := [s1, s2]\<rparr>)"
    by (simp add: j2 room(2))
  moreover have "s2 \<in> recipients (fst (join_room ?st2 s2 rc))
                          (To_room rc (game_ready (board room) (turn room)))"
    by (simp add: j2)
  ultimately show ?thesis using j1 room u d by blast
qed

theorem first_and_second_join_witness:
  "snd (join_room init ''s1'' ''A'') = [To_socket ''s1'' (player_assignment PX)] \<and>
   snd (join_room (fst (run (fst (join_room init ''s1'' ''A''))
          [(''s1'', Reset_game ''A''), (''s3'', Join_room ''B'')])) ''s2'' ''A'') =
     [To_socket ''s2'' (player_assignment PO),
      To_room ''A'' (game_ready (replicate 9 None) (Some PX))] \<and>
   {''s1'', ''s2''} \<subseteq>
     recipients (fst (join_room (fst (run (fst (join_room init ''s1'' ''A''))
          [(''s1'', Reset_game ''A''), (''s3'', Join_room ''B'')])) ''s2'' ''A''))
       (To_room ''A'' (game_ready (replicate 9 None) (Some PX)))"
proof -
  let ?ms = "[(''s1'', Reset_game ''A''), (''s3'', Join_room ''B'')]"
  have a: "rooms init ''A'' = None" by (simp add: init_def)
  have b: "\<forall>m \<in> set ?ms. snd m \<noteq> Join_room ''A''" by simp
  have c: "\<forall>m \<in> set ?ms. \<forall>i s. snd m \<noteq> Make_move ''A'' i s" by simp
  have d: "(''s1'', Disconnect) \<notin> set ?ms" by simp
  from first_and_second_join [OF a b, of "''s1''" "''s2''"] c d show ?thesis
    by (elim conjE exE) simp
qed


text \<open>
C2 as stated fails in two ways. A move that the server accepts between the two joins shows
  up in the \<^verbatim>\<open>game_ready\<close> broadcast of the second join. And when the first joiner has
  disconnected before the second join, it is still a participant of the room but no longer in
  the group the broadcast goes to.
\<close>

theorem game_ready_after_move_counterexample:
  "rooms init ''A'' = None \<and>
   snd (join_room init ''s1'' ''A'') = [To_socket ''s1'' (player_assignment PX)] \<and>
   snd (make_move (fst (join_room init ''s1'' ''A'')) ''s1'' ''A'' 0 (Some PX)) =
     [To_room ''A'' (move_made [Some PX, None, None, None, None, None, None, None, None] (Some PO))] \<and>
   snd (join_room (fst (make_move (fst (join_room init ''s1'' ''A'')) ''s1'' ''A'' 0 (Some PX))) ''s2'' ''A'') =
     [To_socket ''s2'' (player_assignment PO),
      To_room ''A'' (game_ready [Some PX, None, None, None, None, None, None, None, None] (Some PO))] \<and>
   snd (join_room (fst (disconnect (fst (join_room init ''s1'' ''A'')) ''s1'')) ''s2'' ''A'') =
     [To_socket ''s2'' (player_assignment PO),
      To_room ''A'' (game_ready (replicate 9 None) (Some PX))] \<and>
   rooms (fst (join_room (fst (disconnect (fst (join_room init ''s1'' ''A'')) ''s1'')) ''s2'' ''A'')) ''A'' =
     Some \<lparr>players = [''s1'', ''s2''], board = replicate 9 None, turn = Some PX\<rparr> \<and>
   recipients (fst (join_room (fst (disconnect (fst (join_room init ''s1'' ''A'')) ''s1'')) ''s2'' ''A''))
     (To_room ''A'' (game_ready (replicate 9 None) (Some PX))) = {''s2''}"
proof -
  have a: "rooms init ''A'' = None" by (simp add: init_def)
  have b: "snd (join_room init ''s1'' ''A'') = [To_socket ''s1'' (player_assignment PX)]"
    by (simp add: join_room_fresh [OF a])
  have d: "snd (join_room st_moved ''s2'' ''A'') =
     [To_socket ''s2'' (player_assignment PO),
      To_room ''A'' (game_ready [Some PX, None, None, None, None, None, None, None, None] (Some PO))]"
    by (simp add: join_room_second [OF st_moved_room])
  have r: "rooms (fst (disconnect st_one ''s1'')) ''A'' =
      Some \<lparr>players = [''s1''], board = replicate 9 None, turn = Some PX\<rparr>"
    by (simp add: disconnect_def st_one_room)
  have m: "members (fst (disconnect st_one ''s1'')) ''A'' = {}"
    by (simp add: disconnect_def st_one_members)
  have l: "length (players \<lparr>players = [''s1''], board = replicate 9 None, turn = Some PX\<rparr>) < 2"
    by simp
  note j = join_room_second [OF r l, of "''s2''"]
  have e: "snd (join_room (fst (disconnect st_one ''s1'')) ''s2'' ''A'') =
     [To_socket ''s2'' (player_assignment PO),
      To_room ''A'' (game_ready (replicate 9 None) (Some PX))]"
    by (simp add: j)
  have f: "rooms (fst (join_room (fst (disconnect st_one ''s1'')) ''s2'' ''A'')) ''A'' =
     Some \<lparr>players = [''s1'', ''s2''], board = replicate 9 None, turn = Some PX\<rparr>"
    by (simp add: j)
  have g: "recipients (fst (join_room (fst (disconnect st_one ''s1'')) ''s2'' ''A''))
     (To_room ''A'' (game_ready (replicate 9 None) (Some PX))) = {''s2''}"
    by (simp add: j m)
  from a b st_one_move [unfolded st_one_def] d [unfolded st_moved_def st_one_def]
    e [unfolded st_one_def] f [unfolded st_one_def] g [unfolded st_one_def]
  show ?thesis by (intro conjI)
qed


text \<open>
C3. A \<^verbatim>\<open>join_room\<close> to a room with two participants emits exactly one message, the
  error \<open>Room is full\<close>, to the joiner alone, and leaves the registry (so the room's
  participants, board and turn) as it was.
\<close>

theorem third_join_rejected:
  assumes "rooms st rc = Some room" and "length (players room) = 2"
  shows "snd (join_room st sock rc) = [To_socket sock (error ''Room is full'')] \<and>
         recipients (fst (join_room st sock rc)) (To_socket sock (error ''Room is full'')) = {sock} \<and>
         rooms (fst (join_room st sock rc)) = rooms st \<and>
         (\<exists>room'. rooms (fst (join_room st sock rc)) rc = Some room' \<and>
            players room' = players room \<and> board room' = board room \<and> turn room' = turn room)"
  using assms by (simp add: join_room_full)

theorem third_join_rejected_witness:
  "snd (join_room st_two ''s3'' ''A'') = [To_socket ''s3'' (error ''Room is full'')] \<and>
   rooms (fst (join_room st_two ''s3'' ''A'')) = rooms st_two"
proof -
  have "length (players \<lparr>players = [''s1'', ''s2''], board = replicate 9 None, turn = Some PX\<rparr>) = 2"
    by simp
  from third_join_rejected [OF st_two_room this, of "''s3''"] show ?thesis by simp
qed










text \<open>
C9. A connection whose \<^verbatim>\<open>join_room\<close> was answered with \<open>Room is full\<close> has been put
  into the room's broadcast group all the same: while it stays connected, every later
  broadcast to the room is delivered to it, and the room's participants stay as they were.
\<close>

theorem rejected_joiner_subscribed:
  assumes "rooms st rc = Some room"
    and "join_room st sock rc = (st1, [To_socket sock (error ''Room is full'')])"
    and "(sock, Disconnect) \<notin> set ms"
  shows "sock \<in> members st1 rc \<and>
         (\<forall>ev R. (To_room rc ev, R) \<in> set (snd (run st1 ms)) \<longrightarrow> sock \<in> R) \<and>
         (\<exists>room'. rooms (fst (run st1 ms)) rc = Some room' \<and> players room' = players room)"
proof -
  have full: "\<not> length (players room) < 2"
  proof
    assume "length (players room) < 2"
    with assms(1) have "snd (join_room st sock rc) =
      [To_socket sock (player_assignment PO), To_room rc (game_ready (board room) (turn room))]"
      by (simp add: join_room_second)
    with assms(2) show False by simp
  qed
  with assms(1) have "join_room st sock rc =
     (st\<lparr>members := (members st)(rc := insert sock (members st rc))\<rparr>,
      [To_socket sock (error ''Room is full'')])" by (rule join_room_full)
  with assms(2) have st1: "st1 = st\<lparr>members := (members st)(rc := insert sock (members st rc))\<rparr>"
    by simp
  then have mem: "sock \<in> members st1 rc" by simp
  from st1 assms(1) have r1: "rooms st1 rc = Some room" by simp
  have "\<forall>ev R. (To_room rc ev, R) \<in> set (snd (run st1 ms)) \<longrightarrow> sock \<in> R"
    using run_log_members [OF assms(3) mem] by blast
  moreover from full have "(\<forall>m \<in> set ms. snd m \<noteq> Join_room rc) \<or> \<not> length (players room) < 2"
    by simp
  from run_players [OF r1 this]
  have "\<exists>room'. rooms (fst (run st1 ms)) rc = Some room' \<and> players room' = players room" .
  ultimately show ?thesis using mem by simp
qed

theorem rejected_joiner_subscribed_witness:
  "''s3'' \<in> members st_three ''A'' \<and> ''s3'' \<notin> set [''s1'', ''s2''] \<and>
   (To_room ''A'' (game_reset (replicate 9 None) (Some PX)), {''s3'', ''s2'', ''s1''})
     \<in> set (snd (run st_three [(''s1'', Make_move ''A'' 0 (Some PX)), (''s2'', Reset_game ''A'')]))"
  using rejected_joiner_subscribed [OF st_two_room st_three_join,
          of "[(''s1'', Make_move ''A'' 0 (Some PX)), (''s2'', Reset_game ''A'')]"]
  by (simp only: st_three_log) simp


text \<open>
C10. In every reachable state a \<^verbatim>\<open>make_move\<close> with an index below 0 or above 8 is
  rejected: reading the board there gives \<open>undefined\<close>, not \<open>null\<close>, so nothing is
  changed and nothing is emitted.
\<close>

theorem out_of_range_move_rejected:
  assumes "reachable st" and "i < 0 \<or> 8 < i"
  shows "make_move st sock rc i s = (st, []) \<and>
         (\<forall>room. rooms st rc = Some room \<longrightarrow> cell_at (board room) i = None)"
proof -
  have c: "cell_at (board room) i = None" if "rooms st rc = Some room" for room
  proof -
    from reachable_ok [OF assms(1)] that have "length (board room) = 9"
      by (simp add: rooms_ok_def room_ok_def)
    with assms(2) show ?thesis by (auto simp: cell_at_def)
  qed
  have "make_move st sock rc i s = (st, [])"
  proof (cases "rooms st rc")
    case None
    then show ?thesis by (rule make_move_unknown)
  next
    case (Some room)
    with c [OF Some] show ?thesis by (simp add: make_move_rejected)
  qed
  with c show ?thesis by simp
qed

theorem out_of_range_move_rejected_witness:
  "make_move st_one ''s1'' ''A'' 9 (Some PX) = (st_one, []) \<and>
   make_move st_one ''s1'' ''A'' (- 1) (Some PX) = (st_one, [])"
  using out_of_range_move_rejected [OF reachable_st_one, of 9 "''s1''" "''A''" "Some PX"]
        out_of_range_move_rejected [OF reachable_st_one, of "- 1" "''s1''" "''A''" "Some PX"]
  by simp


section \<open>The claims about the board engine\<close>

text \<open>
  C5. On a board of nine cells \<^verbatim>\<open>checkWinner\<close> names a winner exactly when one of the
  eight combinations (three rows, three columns, two diagonals) holds the same symbol three
  times, and then it returns the symbol and the indices of the first such combination; it
  returns Draw, without a line, exactly when no combination matches and no cell is empty; it
  returns \<open>null\<close> exactly when no combination matches and some cell is empty.
\<close>

theorem checkWinner_spec:
  assumes "length squares = 9"
  shows "(\<forall>r. checkWinner squares = Some r \<and> winner r \<noteq> Draw \<longleftrightarrow>
            (\<exists>k < 8. \<exists>p. r = \<lparr>winner = Won p, line = Some (WINNING_COMBINATIONS ! k)\<rparr> \<and>
               (\<forall>i \<in> set (WINNING_COMBINATIONS ! k). squares ! i = Some p) \<and>
               (\<forall>j < k. \<forall>q. \<not> (\<forall>i \<in> set (WINNING_COMBINATIONS ! j). squares ! i = Some q)))) \<and>
         (\<forall>r. checkWinner squares = Some r \<and> winner r = Draw \<longleftrightarrow>
            r = \<lparr>winner = Draw, line = None\<rparr> \<and>
            (\<forall>combo \<in> set WINNING_COMBINATIONS. \<forall>q. \<not> (\<forall>i \<in> set combo. squares ! i = Some q)) \<and>
            (\<forall>i < 9. squares ! i \<noteq> None)) \<and>
         (checkWinner squares = None \<longleftrightarrow>
            (\<forall>combo \<in> set WINNING_COMBINATIONS. \<forall>q. \<not> (\<forall>i \<in> set combo. squares ! i = Some q)) \<and>
            (\<exists>i < 9. squares ! i = None)) \<and>
         set WINNING_COMBINATIONS =
            (\<lambda>r. [3 * r, 3 * r + 1, 3 * r + 2]) ` {0, 1, 2} \<union>
            (\<lambda>c. [c, c + 3, c + 6]) ` {0, 1, 2} \<union> {[0, 4, 8], [2, 4, 6]} \<and>
         length WINNING_COMBINATIONS = 8"
proof -
  note t = triples_in_WINNING [OF assms]
  note fs = first_line_Some [OF t, unfolded length_WINNING]
  note fn = first_line_None [OF t]
  let ?W = WINNING_COMBINATIONS
  let ?hit = "\<lambda>k p. \<forall>i \<in> set (?W ! k). squares ! i = Some p"
  let ?nohit = "\<forall>combo \<in> set ?W. \<forall>q. \<not> (\<forall>i \<in> set combo. squares ! i = Some q)"
  let ?full = "\<forall>i < 9. squares ! i \<noteq> None"
  have full: "?full \<longleftrightarrow> (\<forall>i < length squares. squares ! i \<noteq> None)"
    and nfull: "(\<exists>i < 9. squares ! i = None) \<longleftrightarrow> (\<exists>i < length squares. squares ! i = None)"
    using assms by simp_all
  have a: "checkWinner squares = Some r \<and> winner r \<noteq> Draw \<longleftrightarrow>
            (\<exists>k < 8. \<exists>p. r = \<lparr>winner = Won p, line = Some (?W ! k)\<rparr> \<and> ?hit k p \<and>
               (\<forall>j < k. \<forall>q. \<not> ?hit j q))" (is "?L \<longleftrightarrow> ?R") for r
  proof
    assume l: ?L
    show ?R
    proof (cases "first_line squares ?W")
      case None
      show ?thesis
      proof (cases "\<forall>i < length squares. squares ! i \<noteq> None")
        case True
        from checkWinner_draw [OF None True] l show ?thesis by simp
      next
        case False
        then have "\<exists>i < length squares. squares ! i = None" by simp
        from checkWinner_open [OF None this] l show ?thesis by simp
      qed
    next
      case (Some r')
      from checkWinner_hit [OF Some] l have "r' = r" by simp
      with Some have "first_line squares ?W = Some r" by simp
      then show ?thesis by (simp only: fs)
    qed
  next
    assume r: ?R
    then have f: "first_line squares ?W = Some r" by (simp only: fs)
    from first_line_winner [OF t f] have "winner r \<noteq> Draw" by auto
    with checkWinner_hit [OF f] show ?L by simp
  qed
  have b: "checkWinner squares = Some r \<and> winner r = Draw \<longleftrightarrow>
            r = \<lparr>winner = Draw, line = None\<rparr> \<and> ?nohit \<and> ?full"
    (is "?L \<longleftrightarrow> ?R") for r
  proof
    assume l: ?L
    show ?R
    proof (cases "first_line squares ?W")
      case None
      then have nh: ?nohit by (simp only: fn)
      show ?thesis
      proof (cases "\<forall>i < length squares. squares ! i \<noteq> None")
        case True
        from checkWinner_draw [OF None True] l have "r = \<lparr>winner = Draw, line = None\<rparr>" by simp
        with nh True full show ?thesis by blast
      next
        case False
        then have "\<exists>i < length squares. squares ! i = None" by simp
        from checkWinner_open [OF None this] l show ?thesis by simp
      qed
    next
      case (Some r')
      from checkWinner_hit [OF Some] l have "r' = r" by simp
      with first_line_winner [OF t Some] l show ?thesis by auto
    qed
  next
    assume r: ?R
    then have rr: "r = \<lparr>winner = Draw, line = None\<rparr>" by (rule conjunct1)
    from r have "?nohit \<and> ?full" by (rule conjunct2)
    then have nh: ?nohit and fu: ?full by (rule conjunct1, rule conjunct2)
    from nh have "first_line squares ?W = None" by (simp only: fn)
    from checkWinner_draw [OF this] fu rr full show ?L by simp
  qed
  have c: "checkWinner squares = None \<longleftrightarrow> ?nohit \<and> (\<exists>i < 9. squares ! i = None)"
  proof (cases "first_line squares ?W")
    case None
    then have nh: ?nohit by (simp only: fn)
    show ?thesis
    proof (cases "\<forall>i < length squares. squares ! i \<noteq> None")
      case True
      from checkWinner_draw [OF None True] True nfull show ?thesis by auto
    next
      case False
      then have e: "\<exists>i < length squares. squares ! i = None" by simp
      from checkWinner_open [OF None e] e nh nfull show ?thesis by blast
    qed
  next
    case (Some r')
    have "\<not> ?nohit"
    proof
      assume ?nohit
      then have "first_line squares ?W = None" by (simp only: fn)
      with Some show False by simp
    qed
    with checkWinner_hit [OF Some] show ?thesis by simp
  qed
  have d: "set ?W = (\<lambda>r. [3 * r, 3 * r + 1, 3 * r + 2]) ` {0, 1, 2} \<union>
            (\<lambda>c. [c, c + 3, c + 6]) ` {0, 1, 2} \<union> {[0, 4, 8], [2, 4, 6]}"
    by (rule WINNING_geometry)
  show ?thesis
    apply (intro conjI allI)
        apply (rule a)
       apply (rule b)
      apply (rule c)
     apply (rule d)
    apply (rule length_WINNING)
    done
qed

theorem checkWinner_spec_witness:
  "length board_x_row = 9 \<and>
   checkWinner board_x_row = Some \<lparr>winner = Won PX, line = Some [0, 1, 2]\<rparr>"
proof -
  have l: "length board_x_row = 9" by (simp add: board_x_row_def)
  have "\<exists>k < 8. \<exists>p. \<lparr>winner = Won PX, line = Some [0, 1, 2]\<rparr> =
            \<lparr>winner = Won p, line = Some (WINNING_COMBINATIONS ! k)\<rparr> \<and>
            (\<forall>i \<in> set (WINNING_COMBINATIONS ! k). board_x_row ! i = Some p) \<and>
            (\<forall>j < k. \<forall>q. \<not> (\<forall>i \<in> set (WINNING_COMBINATIONS ! j). board_x_row ! i = Some q))"
    by (rule exI [of _ 0]) (simp add: WINNING_COMBINATIONS_def board_x_row_def)
  with checkWinner_spec [OF l, THEN conjunct1, rule_format,
         of "\<lparr>winner = Won PX, line = Some [0, 1, 2]\<rparr>"] l
  show ?thesis by simp
qed

text \<open>
  C7. On a board of nine cells with an empty cell, \<^verbatim>\<open>getBestMove\<close> for either symbol
  returns the index of an empty cell; and whatever the board, an index it returns is the index
  of an empty cell (on a full board it returns \<open>-1\<close>).
\<close>

theorem getBestMove_empty_cell:
  assumes "length squares = 9"
  shows "((\<exists>i < 9. squares ! i = None) \<longrightarrow>
            (\<exists>i < 9. getBestMove squares (Some a) = int i \<and> squares ! i = None)) \<and>
         (\<forall>i. getBestMove squares (Some a) = int i \<longrightarrow> i < 9 \<and> squares ! i = None)"
proof (cases "moves squares = []")
  case True
  with assms have "\<not> (\<exists>i < 9. squares ! i = None)"
    using moves_iff [OF assms] by (metis empty_iff list.set(1))
  with getBestMove_none [OF True, of a] show ?thesis by auto
next
  case False
  from getBestMove_max [OF assms False, of a] obtain i where
    "i \<in> set (moves squares)" "getBestMove squares (Some a) = int i" by blast
  with moves_iff [OF assms] show ?thesis by auto
qed

theorem getBestMove_empty_cell_witness:
  "length board_last = 9 \<and> board_last ! 8 = None \<and> getBestMove board_last (Some PX) = 8"
proof -
  have l: "length board_last = 9" by (simp add: board_last_def)
  have e: "board_last ! 8 = None" by (simp add: board_last_def)
  then have "\<exists>i < 9. board_last ! i = None" by (intro exI [of _ 8]) simp
  with getBestMove_empty_cell [OF l, of PX] obtain i where
    i: "i < 9" "getBestMove board_last (Some PX) = int i" "board_last ! i = None" by blast
  from i(1,3) have "i \<in> set (moves board_last)" by (simp add: moves_iff [OF l])
  then have "i = 8" by (simp add: moves_board_last)
  with i(2) l e show ?thesis by simp
qed

text \<open>
  C6. The AI is perfect. When both sides take the move of \<^verbatim>\<open>getBestMove\<close> from the empty
  board, X starting, the game ends in a Draw (nine moves and the final check; more rounds
  change nothing). And in the single-player game the AI, playing either symbol and moving first
  or second, is never beaten: whatever the user plays, \<^verbatim>\<open>checkWinner\<close> never names the
  user's symbol as winner.
\<close>

theorem ai_is_perfect:
  "self_play (10 + k) (replicate 9 None) PX = Some Draw \<and>
   (\<forall>b t. ai_game a b t \<longrightarrow> \<not> winner_is (checkWinner b) (Some (opponent a)))"
proof (intro conjI allI impI)
  show "self_play (10 + k) (replicate 9 None) PX = Some Draw" by (rule self_play_draw)
next
  fix b t
  assume "ai_game a b t"
  then show "\<not> winner_is (checkWinner b) (Some (opponent a))" by (rule ai_never_beaten)
qed

theorem ai_is_perfect_witness:
  "self_play 10 (replicate 9 None) PX = Some Draw \<and>
   ai_game PX [Some PX, None, None, None, None, None, None, None, None] PO \<and>
   \<not> winner_is (checkWinner [Some PX, None, None, None, None, None, None, None, None]) (Some PO)"
proof -
  have e: "replicate 9 None = [None, None, None, None, None, None, None, None, None :: Player]"
    by (simp add: eval_nat_numeral)
  have "getBestMove (replicate 9 None) (Some PX) = int 0" by (simp add: e best_0)
  from ai_game.ai_move [OF ai_game.start open_0 [folded e] this]
  have g: "ai_game PX [Some PX, None, None, None, None, None, None, None, None] PO"
    by (simp add: e)
  from ai_is_perfect [of 0 PX]
  have "self_play 10 (replicate 9 None) PX = Some Draw"
    and "\<forall>b t. ai_game PX b t \<longrightarrow> \<not> winner_is (checkWinner b) (Some PO)"
    by simp_all
  with g show ?thesis by blast
qed

end
